theory Spec2Isabelle
  imports Complex_Main "HOL-Library.Char_ord" "HOL-Library.List_Lexorder"
begin

chapter \<open>Scheduler and remediation engine of MeshCentral-ScriptTask\<close>

text \<open>
  A shallow embedding of the scheduler (\<^verbatim>\<open>src/scheduler\<close>) and of the remediation
  engine (\<^verbatim>\<open>src/remediation\<close>, the workflow builder included), followed by the
  properties proved about them. The first part holds every definition, the second
  part every theorem.
\<close>

section \<open>JavaScript values\<close>

text \<open>
  Numbers are IEEE doubles in the source. The model keeps \<open>NaN\<close> and the two
  infinities and takes every finite number as an exact rational, so rounding is not
  represented.
\<close>

datatype jsnum = NaN | PosInf | NegInf | Fin rat

text \<open>
  \<open>JBuiltin k\<close> stands for the function or object that a property lookup finds on
  a built-in prototype under the name \<open>k\<close> (for instance \<open>Object.prototype.toString\<close>).
\<close>

datatype jsval =
    JUndefined
  | JNull
  | JBool bool
  | JNum jsnum
  | JStr string
  | JArr "jsval list"
  | JObj "(string \<times> jsval) list"
  | JBuiltin string

fun truthy :: "jsval \<Rightarrow> bool" where
  "truthy JUndefined = False"
| "truthy JNull = False"
| "truthy (JBool b) = b"
| "truthy (JNum NaN) = False"
| "truthy (JNum (Fin q)) = (q \<noteq> 0)"
| "truthy (JNum _) = True"
| "truthy (JStr s) = (s \<noteq> [])"
| "truthy (JArr _) = True"
| "truthy (JObj _) = True"
| "truthy (JBuiltin _) = True"

text \<open>The operator \<^verbatim>\<open>a || b\<close> on values, and on the typed optional fields of records.\<close>

definition jsOr :: "jsval \<Rightarrow> jsval \<Rightarrow> jsval" where
  "jsOr a b = (if truthy a then a else b)"

definition numOr :: "int option \<Rightarrow> int \<Rightarrow> int" where
  "numOr x d = (case x of None \<Rightarrow> d | Some v \<Rightarrow> if v = 0 then d else v)"

definition strOr :: "string option \<Rightarrow> string \<Rightarrow> string" where
  "strOr x d = (case x of None \<Rightarrow> d | Some s \<Rightarrow> if s = [] then d else s)"

text \<open>Truthiness of an optional string field: \<^verbatim>\<open>undefined\<close> and \<^verbatim>\<open>''\<close> are falsy.\<close>

definition present :: "string option \<Rightarrow> bool" where
  "present x = (case x of None \<Rightarrow> False | Some s \<Rightarrow> s \<noteq> [])"

text \<open>The text of an optional string field, as string interpolation prints it.\<close>

definition idText :: "string option \<Rightarrow> string" where
  "idText x = (case x of None \<Rightarrow> ''undefined'' | Some s \<Rightarrow> s)"

text \<open>A text between two quotation marks, single (\<open>0x27\<close>) or double (\<open>0x22\<close>), as the
  messages of the source print a name.\<close>

definition singleQuoted :: "string \<Rightarrow> string" where
  "singleQuoted s = CHR 0x27 # s @ [CHR 0x27]"

definition doubleQuoted :: "string \<Rightarrow> string" where
  "doubleQuoted s = CHR 0x22 # s @ [CHR 0x22]"

text \<open>The decimal text of an identifier, as string interpolation prints it.\<close>

fun decimal :: "nat \<Rightarrow> string" where
  "decimal n =
     (if n < 10 then [''0123456789'' ! n]
      else decimal (n div 10) @ [''0123456789'' ! (n mod 10)])"

text \<open>
  The services of the JavaScript runtime that the model does not define itself:
  the text of a number and of a built-in, \<^verbatim>\<open>ToNumber\<close> on a string, regular
  expressions (\<open>None\<close> when \<^verbatim>\<open>new RegExp\<close> throws), \<^verbatim>\<open>JSON.parse\<close> (\<open>None\<close> when it
  throws), \<^verbatim>\<open>toLowerCase\<close>, the members that strings, arrays, numbers and
  booleans inherit from their prototypes, whether \<^verbatim>\<open>new URL\<close> accepts a text, and
  what a member of \<^verbatim>\<open>Object.prototype\<close> returns when it is called as a plain function
  with two arguments (\<open>None\<close> when the call throws).
\<close>

record host =
  numToString :: "jsnum \<Rightarrow> string"
  builtinText :: "string \<Rightarrow> string"
  stringToNumber :: "string \<Rightarrow> jsnum"
  regexTest :: "string \<Rightarrow> string \<Rightarrow> string \<Rightarrow> bool option"
  jsonParse :: "string \<Rightarrow> jsval option"
  toLowerCase :: "string \<Rightarrow> string"
  inheritedMember :: "jsval \<Rightarrow> string \<Rightarrow> jsval"
  urlParses :: "string \<Rightarrow> bool"
  callInherited :: "string \<Rightarrow> jsval \<Rightarrow> jsval \<Rightarrow> jsval option"

fun joinWith :: "string \<Rightarrow> string list \<Rightarrow> string" where
  "joinWith sep [] = []"
| "joinWith sep [x] = x"
| "joinWith sep (x # y # ys) = x @ sep @ joinWith sep (y # ys)"

fun startsWith :: "string \<Rightarrow> string \<Rightarrow> bool" where
  "startsWith s [] = True"
| "startsWith [] (p # ps) = False"
| "startsWith (c # cs) (p # ps) = (c = p \<and> startsWith cs ps)"

fun includesText :: "string \<Rightarrow> string \<Rightarrow> bool" where
  "includesText [] p = (p = [])"
| "includesText (c # cs) p = (startsWith (c # cs) p \<or> includesText cs p)"

text \<open>\<^verbatim>\<open>String(v)\<close>; an array joins its elements with commas, \<^verbatim>\<open>null\<close> and
  \<^verbatim>\<open>undefined\<close> elements as empty text.\<close>

fun toStr :: "host \<Rightarrow> jsval \<Rightarrow> string" where
  "toStr h JUndefined = ''undefined''"
| "toStr h JNull = ''null''"
| "toStr h (JBool b) = (if b then ''true'' else ''false'')"
| "toStr h (JNum n) = numToString h n"
| "toStr h (JStr s) = s"
| "toStr h (JArr vs) =
     joinWith '','' (map (\<lambda>v. if v = JUndefined \<or> v = JNull then [] else toStr h v) vs)"
| "toStr h (JObj kvs) = ''[object Object]''"
| "toStr h (JBuiltin k) = builtinText h k"

text \<open>\<^verbatim>\<open>ToNumber(v)\<close>; arrays and objects go through their text.\<close>

fun toNumber :: "host \<Rightarrow> jsval \<Rightarrow> jsnum" where
  "toNumber h JUndefined = NaN"
| "toNumber h JNull = Fin 0"
| "toNumber h (JBool b) = (if b then Fin 1 else Fin 0)"
| "toNumber h (JNum n) = n"
| "toNumber h (JStr s) = stringToNumber h s"
| "toNumber h (JArr vs) = stringToNumber h (toStr h (JArr vs))"
| "toNumber h (JObj kvs) = NaN"
| "toNumber h (JBuiltin k) = NaN"

fun numAdd :: "jsnum \<Rightarrow> jsnum \<Rightarrow> jsnum" where
  "numAdd (Fin a) (Fin b) = Fin (a + b)"
| "numAdd NaN _ = NaN"
| "numAdd _ NaN = NaN"
| "numAdd PosInf NegInf = NaN"
| "numAdd NegInf PosInf = NaN"
| "numAdd PosInf _ = PosInf"
| "numAdd NegInf _ = NegInf"
| "numAdd _ PosInf = PosInf"
| "numAdd _ NegInf = NegInf"

fun numNeg :: "jsnum \<Rightarrow> jsnum" where
  "numNeg NaN = NaN"
| "numNeg PosInf = NegInf"
| "numNeg NegInf = PosInf"
| "numNeg (Fin a) = Fin (- a)"

definition numSub :: "jsnum \<Rightarrow> jsnum \<Rightarrow> jsnum" where
  "numSub a b = numAdd a (numNeg b)"

fun numLess :: "jsnum \<Rightarrow> jsnum \<Rightarrow> bool" where
  "numLess NaN _ = False"
| "numLess _ NaN = False"
| "numLess (Fin a) (Fin b) = (a < b)"
| "numLess NegInf NegInf = False"
| "numLess NegInf _ = True"
| "numLess _ NegInf = False"
| "numLess PosInf _ = False"
| "numLess _ PosInf = True"

definition numLe :: "jsnum \<Rightarrow> jsnum \<Rightarrow> bool" where
  "numLe a b = (numLess a b \<or> (a \<noteq> NaN \<and> a = b))"

fun numEq :: "jsnum \<Rightarrow> jsnum \<Rightarrow> bool" where
  "numEq NaN _ = False"
| "numEq _ NaN = False"
| "numEq a b = (a = b)"

text \<open>\<^verbatim>\<open>a + b\<close>: text concatenation as soon as one operand is, or becomes, text.\<close>

definition isTextual :: "jsval \<Rightarrow> bool" where
  "isTextual v = (case v of JStr _ \<Rightarrow> True | JArr _ \<Rightarrow> True | JObj _ \<Rightarrow> True
                   | JBuiltin _ \<Rightarrow> True | _ \<Rightarrow> False)"

definition jsPlus :: "host \<Rightarrow> jsval \<Rightarrow> jsval \<Rightarrow> jsval" where
  "jsPlus h a b =
     (if isTextual a \<or> isTextual b then JStr (toStr h a @ toStr h b)
      else JNum (numAdd (toNumber h a) (toNumber h b)))"

text \<open>
  Property lookup \<^verbatim>\<open>obj[key]\<close> on a plain object: its own properties first, then
  the members every object inherits from \<^verbatim>\<open>Object.prototype\<close>.
\<close>

definition objectPrototypeNames :: "string list" where
  "objectPrototypeNames =
     [''constructor'', ''__defineGetter__'', ''__defineSetter__'', ''hasOwnProperty'',
      ''__lookupGetter__'', ''__lookupSetter__'', ''isPrototypeOf'',
      ''propertyIsEnumerable'', ''toString'', ''valueOf'', ''__proto__'',
      ''toLocaleString'']"

definition objectGet :: "(string \<times> jsval) list \<Rightarrow> string \<Rightarrow> jsval" where
  "objectGet kvs k =
     (case map_of kvs k of
        Some v \<Rightarrow> v
      | None \<Rightarrow> if k \<in> set objectPrototypeNames then JBuiltin k else JUndefined)"


section \<open>The documents of the store\<close>

text \<open>
  Every document lives in the one collection \<^verbatim>\<open>db.scriptFile\<close> and is told apart
  by its \<^verbatim>\<open>type\<close> field. The model gives each kind of document a record. A field
  that the source tests for truthiness is an option (\<open>None\<close> for \<^verbatim>\<open>undefined\<close>);
  a field whose JavaScript type the source inspects is a \<open>jsval\<close>. Identifiers
  (\<^verbatim>\<open>_id\<close>) are natural numbers, \<^verbatim>\<open>db.formatId\<close> and \<^verbatim>\<open>toString\<close> on them are
  the identity, and a message prints them in decimal. Wall-clock readings (\<^verbatim>\<open>Date.now()\<close>) are arguments.
\<close>

record retryPolicy =
  maxAttempts :: "int option"
  backoffType :: "string option"
  delaySeconds :: "int option"

datatype condition = Condition
  (c_type: "string option")
  (c_exitCode: jsval)
  (c_operator: "string option")
  (c_pattern: "string option")
  (c_matchType: "string option")
  (c_caseSensitive: "bool option")
  (c_field: "string option")
  (c_value: jsval)
  (c_path: "string option")
  (c_logic: "string option")
  (c_conditions: "condition list option")

record step =
  s_id :: "string option"
  s_type :: "string option"
  s_name :: "string option"
  s_timeout :: jsval
  s_scriptId :: "string option"
  s_script :: "string option"
  s_url :: "string option"
  s_method :: "string option"
  s_to :: "string option"
  s_subject :: "string option"
  s_body :: "string option"
  s_template :: "string option"
  s_duration :: jsval
  s_condition :: "condition option"
  s_onSuccess :: "string option"
  s_onFailure :: "string option"
  s_onTrue :: "string option"
  s_onFalse :: "string option"
  s_rollbackScriptId :: "string option"
  s_retryPolicy :: "retryPolicy option"

record workflow =
  w_id :: nat
  w_name :: "string option"
  w_enabled :: bool
  w_steps :: "step list option"
  w_startStep :: "string option"
  w_rollbackEnabled :: bool
  w_escalationEnabled :: bool

text \<open>An entry of \<^verbatim>\<open>execution.stepResults\<close> (its three time fields are left out).\<close>

record stepResult =
  r_stepId :: "string option"
  r_stepName :: "string option"
  r_stepType :: "string option"
  r_status :: string
  r_output :: jsval
  r_error :: "string option"
  r_retryCount :: nat

record execution =
  e_id :: nat
  e_workflowId :: nat
  e_workflowName :: "string option"
  e_nodeId :: string
  e_status :: string
  e_currentStep :: "string option"
  e_triggeredBy :: string
  e_triggerType :: string
  e_startTime :: int
  e_endTime :: "int option"
  e_stepResults :: "stepResult list"
  e_completionReason :: "string option"
  e_completedAt :: "int option"

record job =
  j_id :: nat
  j_scriptId :: string
  j_node :: string
  j_state :: string
  j_queueTime :: int
  j_priority :: string
  j_remediationExecutionId :: "nat option"
  j_tags :: "string list"
  j_reason :: string
  j_originalStepId :: "string option"

section \<open>Escalation manager: the retry decision\<close>

text \<open>
  \<^verbatim>\<open>EscalationManager.handleStepFailure\<close> (\<^verbatim>\<open>src/remediation/escalation.js\<close>). Its third
  argument, the error, is never read and is left out. The retry count is the one
  stored with the first recorded result of this step, \<open>0\<close> when there is none.
\<close>

record retryDecision =
  shouldRetry :: bool
  delay :: int

definition policyOf :: "step \<Rightarrow> retryPolicy" where
  "policyOf st =
     (case s_retryPolicy st of
        Some p \<Rightarrow> p
      | None \<Rightarrow> \<lparr>maxAttempts = None, backoffType = None, delaySeconds = None\<rparr>)"

definition maxAttemptsOf :: "step \<Rightarrow> int" where
  "maxAttemptsOf st = numOr (maxAttempts (policyOf st)) 3"

definition backoffTypeOf :: "step \<Rightarrow> string" where
  "backoffTypeOf st = strOr (backoffType (policyOf st)) ''exponential''"

definition baseDelayOf :: "step \<Rightarrow> int" where
  "baseDelayOf st = numOr (delaySeconds (policyOf st)) 60"

definition retryCountOf :: "execution \<Rightarrow> step \<Rightarrow> nat" where
  "retryCountOf ex st =
     (case find (\<lambda>r. r_stepId r = s_id st) (e_stepResults ex) of
        Some r \<Rightarrow> r_retryCount r
      | None \<Rightarrow> 0)"

definition escalation_handleStepFailure :: "execution \<Rightarrow> step \<Rightarrow> retryDecision" where
  "escalation_handleStepFailure ex st =
     (let maxAttempts = maxAttemptsOf st;
          backoffType = backoffTypeOf st;
          baseDelay = baseDelayOf st;
          retryCount = retryCountOf ex st
      in if int retryCount \<ge> maxAttempts then \<lparr>shouldRetry = False, delay = 0\<rparr>
         else let delay0 =
                    (if backoffType = ''exponential'' then baseDelay * 2 ^ retryCount
                     else if backoffType = ''linear'' then baseDelay * (int retryCount + 1)
                     else baseDelay)
              in \<lparr>shouldRetry = True, delay = min delay0 3600\<rparr>)"

section \<open>Remediation engine: executing one step\<close>

text \<open>
  \<^verbatim>\<open>RemediationEngine.executeStep\<close> and \<^verbatim>\<open>RemediationEngine.handleStepFailure\<close>
  (\<^verbatim>\<open>src/remediation/engine.js\<close>) call each other: a step whose work throws, or
  whose timeout fires first, is handed to \<^verbatim>\<open>handleStepFailure\<close>, which asks the
  escalation manager and, when told to retry, sleeps and calls \<^verbatim>\<open>executeStep\<close>
  again with the same, unchanged execution. What the step's work does on its
  \<open>k\<close>-th run is the environment's: it returns a result or throws. The first
  argument bounds the number of runs; \<open>None\<close> means the bound was reached with the
  loop still going. The second component of the result counts the runs made.
\<close>

record stepOutcome =
  o_status :: string
  o_output :: jsval
  o_error :: "string option"
  o_conditionResult :: bool
  o_retryCount :: "nat option"

datatype attempt = Completes stepOutcome | Throws string

definition stepTypes :: "string list" where
  "stepTypes = [''script'', ''webhook'', ''email'', ''delay'', ''condition'']"

definition runStep :: "(nat \<Rightarrow> attempt) \<Rightarrow> nat \<Rightarrow> step \<Rightarrow> attempt" where
  "runStep env k st =
     (case s_type st of
        None \<Rightarrow> Throws (''Unknown step type: '' @ idText (s_type st))
      | Some t \<Rightarrow> if t \<in> set stepTypes then env k
                  else Throws (''Unknown step type: '' @ idText (s_type st)))"

definition failureOf :: "string \<Rightarrow> stepOutcome" where
  "failureOf msg =
     \<lparr>o_status = ''failed'', o_output = JUndefined, o_error = Some msg,
      o_conditionResult = False, o_retryCount = None\<rparr>"

fun executeStep ::
    "nat \<Rightarrow> (nat \<Rightarrow> attempt) \<Rightarrow> nat \<Rightarrow> execution \<Rightarrow> step \<Rightarrow> (stepOutcome \<times> nat) option"
  and engine_handleStepFailure ::
    "nat \<Rightarrow> (nat \<Rightarrow> attempt) \<Rightarrow> nat \<Rightarrow> execution \<Rightarrow> step \<Rightarrow> stepOutcome
       \<Rightarrow> (stepOutcome \<times> nat) option"
where
  "executeStep 0 env k ex st = None"
| "executeStep (Suc n) env k ex st =
     (case runStep env k st of
        Completes r \<Rightarrow> Some (r, Suc k)
      | Throws msg \<Rightarrow> engine_handleStepFailure n env k ex st (failureOf msg))"
| "engine_handleStepFailure n env k ex st err =
     (let retryDecision = escalation_handleStepFailure ex st
      in if shouldRetry retryDecision then executeStep n env (Suc k) ex st
         else Some (err\<lparr>o_status := ''failed'',
                        o_retryCount := Some (case o_retryCount err of None \<Rightarrow> 0 | Some c \<Rightarrow> c)\<rparr>,
                    Suc k))"

text \<open>
  The transition that \<^verbatim>\<open>handleStepResult\<close> computes and \<^verbatim>\<open>executeWorkflow\<close> follows
  (the loop goes on while the id is truthy, and looks the step up with
  \<^verbatim>\<open>workflow.steps.find\<close>).
\<close>

definition nextStepId :: "step \<Rightarrow> stepOutcome \<Rightarrow> string option" where
  "nextStepId st r =
     (if s_type st = Some ''condition''
      then (if o_conditionResult r then s_onTrue st else s_onFalse st)
      else if o_status r = ''success'' then s_onSuccess st
      else s_onFailure st)"

section \<open>Condition evaluator\<close>

text \<open>
  \<^verbatim>\<open>ConditionEvaluator\<close> (second part of \<^verbatim>\<open>src/remediation/escalation.js\<close>). A condition
  is a typed document; the job result it is evaluated against is any value. A function
  that can throw returns \<open>Inl\<close> for the throw. Text is compared by bytes, which is the
  order of the source on ASCII text.
\<close>

subsection \<open>Property access, comparison, parsing\<close>

definition isDigit :: "char \<Rightarrow> bool" where
  "isDigit c = (CHR ''0'' \<le> c \<and> c \<le> CHR ''9'')"

definition isWordChar :: "char \<Rightarrow> bool" where
  "isWordChar c =
     (isDigit c \<or> (CHR ''a'' \<le> c \<and> c \<le> CHR ''z'') \<or> (CHR ''A'' \<le> c \<and> c \<le> CHR ''Z'')
      \<or> c = CHR ''_'')"

definition isWhite :: "char \<Rightarrow> bool" where
  "isWhite c = (c \<in> {CHR '' '', CHR 0x09, CHR 0x0A, CHR 0x0B, CHR 0x0C, CHR 0x0D})"

definition digitsValue :: "string \<Rightarrow> nat" where
  "digitsValue ds = foldl (\<lambda>a c. 10 * a + (of_char c - 48)) 0 ds"

text \<open>An array index as a property name: decimal digits with no superfluous zero.\<close>

definition arrayIndex :: "string \<Rightarrow> nat option" where
  "arrayIndex k =
     (if k \<noteq> [] \<and> list_all isDigit k \<and> (k = ''0'' \<or> hd k \<noteq> CHR ''0'')
      then Some (digitsValue k) else None)"

text \<open>\<^verbatim>\<open>v[k]\<close>: throws on \<^verbatim>\<open>null\<close> and \<^verbatim>\<open>undefined\<close>.\<close>

definition getProp :: "host \<Rightarrow> jsval \<Rightarrow> string \<Rightarrow> string + jsval" where
  "getProp h v k =
     (case v of
        JUndefined \<Rightarrow> Inl ''Cannot read properties of undefined''
      | JNull \<Rightarrow> Inl ''Cannot read properties of null''
      | JObj kvs \<Rightarrow> Inr (objectGet kvs k)
      | JArr vs \<Rightarrow>
          (case arrayIndex k of
             Some i \<Rightarrow> Inr (if i < length vs then vs ! i else JUndefined)
           | None \<Rightarrow> if k = ''length'' then Inr (JNum (Fin (of_nat (length vs))))
                     else Inr (inheritedMember h v k))
      | JStr s \<Rightarrow>
          (case arrayIndex k of
             Some i \<Rightarrow> Inr (if i < length s then JStr [s ! i] else JUndefined)
           | None \<Rightarrow> if k = ''length'' then Inr (JNum (Fin (of_nat (length s))))
                     else Inr (inheritedMember h v k))
      | _ \<Rightarrow> Inr (inheritedMember h v k))"

definition nullish :: "jsval \<Rightarrow> bool" where
  "nullish v = (v = JUndefined \<or> v = JNull)"

text \<open>
  \<^verbatim>\<open>a === b\<close> and the \<^verbatim>\<open>SameValueZero\<close> of \<^verbatim>\<open>Array.prototype.includes\<close>. Arrays,
  objects and built-ins are equal only to themselves, and a value taken from the job
  result is never the same object as one taken from the condition.
\<close>

fun strictEquals :: "jsval \<Rightarrow> jsval \<Rightarrow> bool" where
  "strictEquals JUndefined JUndefined = True"
| "strictEquals JNull JNull = True"
| "strictEquals (JBool a) (JBool b) = (a = b)"
| "strictEquals (JNum a) (JNum b) = numEq a b"
| "strictEquals (JStr a) (JStr b) = (a = b)"
| "strictEquals _ _ = False"

definition sameValueZero :: "jsval \<Rightarrow> jsval \<Rightarrow> bool" where
  "sameValueZero a b = (strictEquals a b \<or> (a = JNum NaN \<and> b = JNum NaN))"

definition toPrimitive :: "host \<Rightarrow> jsval \<Rightarrow> jsval" where
  "toPrimitive h v =
     (case v of
        JArr vs \<Rightarrow> JStr (toStr h v)
      | JObj kvs \<Rightarrow> JStr (toStr h v)
      | JBuiltin k \<Rightarrow> JStr (toStr h v)
      | _ \<Rightarrow> v)"

text \<open>\<^verbatim>\<open>a < b\<close>: \<open>None\<close> when a \<open>NaN\<close> makes the comparison undefined.\<close>

definition jsLess :: "host \<Rightarrow> jsval \<Rightarrow> jsval \<Rightarrow> bool option" where
  "jsLess h a b =
     (case (toPrimitive h a, toPrimitive h b) of
        (JStr x, JStr y) \<Rightarrow> Some (x < y)
      | (pa, pb) \<Rightarrow>
          if toNumber h pa = NaN \<or> toNumber h pb = NaN then None
          else Some (numLess (toNumber h pa) (toNumber h pb)))"

text \<open>
  \<^verbatim>\<open>parseFloat\<close>: leading white space, a sign, then \<^verbatim>\<open>Infinity\<close> or the longest
  decimal literal (digits, a fraction, an exponent with digits); \<open>NaN\<close> when there is
  no digit. The literal is taken exactly.
\<close>

definition signOf :: "string \<Rightarrow> bool \<times> string" where
  "signOf s =
     (case s of
        [] \<Rightarrow> (False, s)
      | c # r \<Rightarrow> if c = CHR ''-'' then (True, r) else if c = CHR ''+'' then (False, r)
                 else (False, s))"

definition exponentOf :: "string \<Rightarrow> int" where
  "exponentOf s =
     (case s of
        [] \<Rightarrow> 0
      | c # r \<Rightarrow>
          if c = CHR ''e'' \<or> c = CHR ''E''
          then (let ds = takeWhile isDigit (snd (signOf r))
                in if ds = [] then 0
                   else if fst (signOf r) then - int (digitsValue ds) else int (digitsValue ds))
          else 0)"

definition scale :: "rat \<Rightarrow> int \<Rightarrow> rat" where
  "scale m e = (if e \<ge> 0 then m * 10 ^ nat e else m / 10 ^ nat (- e))"

definition parseFloat :: "string \<Rightarrow> jsnum" where
  "parseFloat s =
     (let t = dropWhile isWhite s;
          negative = fst (signOf t);
          u = snd (signOf t)
      in if startsWith u ''Infinity'' then (if negative then NegInf else PosInf)
         else
           let ip = takeWhile isDigit u;
               r1 = dropWhile isDigit u;
               fp = (case r1 of [] \<Rightarrow> []
                     | c # r \<Rightarrow> if c = CHR ''.'' then takeWhile isDigit r else []);
               r2 = (case r1 of [] \<Rightarrow> []
                     | c # r \<Rightarrow> if c = CHR ''.'' then dropWhile isDigit r else r1)
           in if ip = [] \<and> fp = [] then NaN
              else
                let mantissa = of_nat (digitsValue (ip @ fp)) / 10 ^ length fp;
                    magnitude = scale mantissa (exponentOf r2)
                in Fin (if negative then - magnitude else magnitude))"

subsection \<open>Field extraction\<close>

fun splitOn :: "char \<Rightarrow> string \<Rightarrow> string list" where
  "splitOn sep [] = [Nil]"
| "splitOn sep (c # cs) =
     (if c = sep then [] # splitOn sep cs
      else (case splitOn sep cs of [] \<Rightarrow> [c # Nil] | p # ps \<Rightarrow> (c # p) # ps))"

text \<open>
  \<^verbatim>\<open>part.match(/(\w+)\[(\d+)\]/)\<close>: the leftmost place where a run of word characters
  is followed by an opening bracket, a run of digits and a closing bracket. At a given
  place both runs are maximal, since neither bracket is a word character or a digit.
\<close>

definition matchHere :: "string \<Rightarrow> (string \<times> nat) option" where
  "matchHere s =
     (let name = takeWhile isWordChar s; r = dropWhile isWordChar s
      in if name = [] then None
         else case r of
                [] \<Rightarrow> None
              | b # r1 \<Rightarrow>
                  if b \<noteq> CHR ''['' then None
                  else let ds = takeWhile isDigit r1; r2 = dropWhile isDigit r1
                       in if ds = [] then None
                          else case r2 of
                                 [] \<Rightarrow> None
                               | e # r3 \<Rightarrow> if e = CHR '']'' then Some (name, digitsValue ds)
                                            else None)"

fun arrayMatch :: "string \<Rightarrow> (string \<times> nat) option" where
  "arrayMatch [] = None"
| "arrayMatch (c # cs) =
     (case matchHere (c # cs) of Some m \<Rightarrow> Some m | None \<Rightarrow> arrayMatch cs)"

text \<open>Reading a property of a value that is known not to be \<^verbatim>\<open>null\<close> or
  \<^verbatim>\<open>undefined\<close>.\<close>

definition member :: "host \<Rightarrow> jsval \<Rightarrow> string \<Rightarrow> jsval" where
  "member h v k = (case getProp h v k of Inl e \<Rightarrow> JUndefined | Inr x \<Rightarrow> x)"

definition stepInto :: "host \<Rightarrow> jsval \<Rightarrow> string \<Rightarrow> jsval" where
  "stepInto h current part =
     (if CHR ''['' \<in> set part then
        (case arrayMatch part of
           Some (arrayName, index) \<Rightarrow>
             (case member h current arrayName of
                JArr vs \<Rightarrow> if index < length vs then vs ! index else JUndefined
              | other \<Rightarrow> other)
         | None \<Rightarrow> member h current part)
      else member h current part)"

fun walk :: "host \<Rightarrow> jsval \<Rightarrow> string list \<Rightarrow> jsval" where
  "walk h current [] = current"
| "walk h current (part # parts) =
     (if nullish current then JNull else walk h (stepInto h current part) parts)"

definition extractField :: "host \<Rightarrow> jsval \<Rightarrow> string option \<Rightarrow> jsval" where
  "extractField h obj path =
     (if \<not> present path then obj else walk h obj (splitOn CHR ''.'' (idText path)))"

subsection \<open>Operators\<close>

text \<open>
  The operator table is an object literal: a name it does not define may still name a
  member it inherits, which is then called like an operator.
\<close>

definition operatorNames :: "string list" where
  "operatorNames =
     [''eq'', ''ne'', ''gt'', ''gte'', ''lt'', ''lte'', ''contains'', ''notContains'',
      ''regex'', ''in'', ''notIn'']"

definition regexSource :: "host \<Rightarrow> jsval \<Rightarrow> string" where
  "regexSource h b = (if b = JUndefined then ''(?:)'' else toStr h b)"

definition applyOperator :: "host \<Rightarrow> string \<Rightarrow> jsval \<Rightarrow> jsval \<Rightarrow> string + jsval" where
  "applyOperator h name a b =
     (if name = ''eq'' then Inr (JBool (strictEquals a b))
      else if name = ''ne'' then Inr (JBool (\<not> strictEquals a b))
      else if name = ''gt'' then Inr (JBool (jsLess h b a = Some True))
      else if name = ''gte'' then Inr (JBool (jsLess h a b = Some False))
      else if name = ''lt'' then Inr (JBool (jsLess h a b = Some True))
      else if name = ''lte'' then Inr (JBool (jsLess h b a = Some False))
      else if name = ''contains'' then Inr (JBool (includesText (toStr h a) (toStr h b)))
      else if name = ''notContains''
      then Inr (JBool (\<not> includesText (toStr h a) (toStr h b)))
      else if name = ''regex''
      then (case regexTest h (regexSource h b) [] (toStr h a) of
              None \<Rightarrow> Inl ''Invalid regular expression''
            | Some m \<Rightarrow> Inr (JBool m))
      else if name = ''in''
      then Inr (JBool (case b of JArr vs \<Rightarrow> list_ex (sameValueZero a) vs | _ \<Rightarrow> False))
      else if name = ''notIn''
      then Inr (JBool (case b of JArr vs \<Rightarrow> \<not> list_ex (sameValueZero a) vs | _ \<Rightarrow> False))
      else (case callInherited h name a b of
              None \<Rightarrow> Inl ''opFunc is not a function, or it throws''
            | Some v \<Rightarrow> Inr v))"

text \<open>\<^verbatim>\<open>const opFunc = this.operators[operator]; if (!opFunc) return false;
  return opFunc(a, b)\<close>.\<close>

definition compareWith :: "host \<Rightarrow> string \<Rightarrow> jsval \<Rightarrow> jsval \<Rightarrow> string + jsval" where
  "compareWith h operator a b =
     (if operator \<in> set operatorNames \<or> operator \<in> set objectPrototypeNames
      then applyOperator h operator a b
      else Inr (JBool False))"

subsection \<open>The five evaluators\<close>

definition evaluateExitCode :: "host \<Rightarrow> condition \<Rightarrow> jsval \<Rightarrow> string + jsval" where
  "evaluateExitCode h c jobResult =
     (case getProp h jobResult ''exitCode'' of
        Inl e \<Rightarrow> Inl e
      | Inr found \<Rightarrow>
          let exitCode = (if found \<noteq> JUndefined then found else JNull)
          in if exitCode = JNull then Inr (JBool False)
             else compareWith h (strOr (c_operator c) ''eq'') exitCode (c_exitCode c))"

text \<open>\<^verbatim>\<open>jobResult.output || jobResult.stdout || ''\<close>.\<close>

definition outputOf :: "host \<Rightarrow> jsval \<Rightarrow> string + jsval" where
  "outputOf h jobResult =
     (case getProp h jobResult ''output'' of
        Inl e \<Rightarrow> Inl e
      | Inr out \<Rightarrow>
          if truthy out then Inr out
          else (case getProp h jobResult ''stdout'' of
                  Inl e \<Rightarrow> Inl e
                | Inr std \<Rightarrow> Inr (if truthy std then std else JStr [])))"

definition optionalText :: "string option \<Rightarrow> jsval" where
  "optionalText x = (case x of None \<Rightarrow> JUndefined | Some s \<Rightarrow> JStr s)"

text \<open>\<^verbatim>\<open>x.toLowerCase()\<close>, which only a text has.\<close>

definition lowered :: "host \<Rightarrow> jsval \<Rightarrow> string + jsval" where
  "lowered h v =
     (case v of JStr s \<Rightarrow> Inr (JStr (toLowerCase h s))
      | _ \<Rightarrow> Inl ''toLowerCase is not a function'')"

text \<open>\<^verbatim>\<open>text.includes(pattern)\<close>: a search in a text, membership in an array, and a
  throw on anything else.\<close>

definition includesOf :: "host \<Rightarrow> jsval \<Rightarrow> jsval \<Rightarrow> string + bool" where
  "includesOf h searchText searchPattern =
     (case searchText of
        JStr s \<Rightarrow> Inr (includesText s (toStr h searchPattern))
      | JArr vs \<Rightarrow> Inr (list_ex (\<lambda>v. sameValueZero v searchPattern) vs)
      | _ \<Rightarrow> Inl ''includes is not a function'')"

definition endsWith :: "string \<Rightarrow> string \<Rightarrow> bool" where
  "endsWith s p = startsWith (rev s) (rev p)"

definition matchOutput ::
    "host \<Rightarrow> string \<Rightarrow> bool \<Rightarrow> jsval \<Rightarrow> jsval \<Rightarrow> jsval \<Rightarrow> string + jsval" where
  "matchOutput h matchType caseSensitive output searchText searchPattern =
     (if matchType = ''contains''
      then (case includesOf h searchText searchPattern of
              Inl e \<Rightarrow> Inl e | Inr b \<Rightarrow> Inr (JBool b))
      else if matchType = ''notContains''
      then (case includesOf h searchText searchPattern of
              Inl e \<Rightarrow> Inl e | Inr b \<Rightarrow> Inr (JBool (\<not> b)))
      else if matchType = ''regex''
      then (case regexTest h (regexSource h searchPattern) (if caseSensitive then [] else ''i'')
                   (toStr h output) of
              None \<Rightarrow> Inr (JBool False)
            | Some m \<Rightarrow> Inr (JBool m))
      else if matchType = ''startsWith''
      then (case searchText of
              JStr s \<Rightarrow> Inr (JBool (startsWith s (toStr h searchPattern)))
            | _ \<Rightarrow> Inl ''startsWith is not a function'')
      else if matchType = ''endsWith''
      then (case searchText of
              JStr s \<Rightarrow> Inr (JBool (endsWith s (toStr h searchPattern)))
            | _ \<Rightarrow> Inl ''endsWith is not a function'')
      else Inr (JBool False))"

definition evaluateOutputPattern :: "host \<Rightarrow> condition \<Rightarrow> jsval \<Rightarrow> string + jsval" where
  "evaluateOutputPattern h c jobResult =
     (case outputOf h jobResult of
        Inl e \<Rightarrow> Inl e
      | Inr output \<Rightarrow>
          let pattern = optionalText (c_pattern c);
              matchType = strOr (c_matchType c) ''contains'';
              caseSensitive = (c_caseSensitive c \<noteq> Some False)
          in if caseSensitive then matchOutput h matchType True output output pattern
             else (case lowered h output of
                     Inl e \<Rightarrow> Inl e
                   | Inr searchText \<Rightarrow>
                       (case lowered h pattern of
                          Inl e \<Rightarrow> Inl e
                        | Inr searchPattern \<Rightarrow>
                            matchOutput h matchType False output searchText searchPattern)))"

definition evaluateThreshold :: "host \<Rightarrow> condition \<Rightarrow> jsval \<Rightarrow> string + jsval" where
  "evaluateThreshold h c jobResult =
     (let extracted = extractField h jobResult (c_field c);
          actualValue = (case extracted of JStr s \<Rightarrow> JNum (parseFloat s) | _ \<Rightarrow> extracted)
      in if toNumber h actualValue = NaN then Inr (JBool False)
         else compareWith h (strOr (c_operator c) ''gt'') actualValue (c_value c))"

definition evaluateJsonPath :: "host \<Rightarrow> condition \<Rightarrow> jsval \<Rightarrow> string + jsval" where
  "evaluateJsonPath h c jobResult =
     (case getProp h jobResult ''output'' of
        Inl e \<Rightarrow> Inl e
      | Inr out \<Rightarrow>
          let data = (case out of
                        JStr s \<Rightarrow> (case jsonParse h s of
                                     None \<Rightarrow> JObj [(''output'', out)]
                                   | Some parsed \<Rightarrow> parsed)
                      | _ \<Rightarrow> jobResult)
          in compareWith h (strOr (c_operator c) ''eq'') (extractField h data (c_path c))
               (c_value c))"

definition caught :: "string + jsval \<Rightarrow> jsval" where
  "caught r = (case r of Inl e \<Rightarrow> JBool False | Inr v \<Rightarrow> v)"

text \<open>
  \<^verbatim>\<open>evaluate\<close> with \<^verbatim>\<open>evaluateComposite\<close> written into it, since the two call each other.
  \<open>None\<close> is a missing condition, such as \<^verbatim>\<open>conditions[0]\<close> of an empty array.
\<close>

function evaluate :: "host \<Rightarrow> condition option \<Rightarrow> jsval \<Rightarrow> jsval" where
  "evaluate h None jobResult = JBool False"
| "evaluate h (Some (Condition ty ec op pat mt cs fld v pth lg cds)) jobResult =
     (if \<not> present ty then JBool False
      else if ty = Some ''exitCode''
      then caught (evaluateExitCode h (Condition ty ec op pat mt cs fld v pth lg cds) jobResult)
      else if ty = Some ''outputPattern''
      then caught (evaluateOutputPattern h (Condition ty ec op pat mt cs fld v pth lg cds)
                     jobResult)
      else if ty = Some ''threshold''
      then caught (evaluateThreshold h (Condition ty ec op pat mt cs fld v pth lg cds) jobResult)
      else if ty = Some ''jsonPath''
      then caught (evaluateJsonPath h (Condition ty ec op pat mt cs fld v pth lg cds) jobResult)
      else if ty = Some ''composite''
      then (let logic = strOr lg ''and'';
                conditions = (case cds of None \<Rightarrow> [] | Some l \<Rightarrow> l)
            in if logic = ''and''
               then JBool (list_all (\<lambda>c. truthy (evaluate h (Some c) jobResult)) conditions)
               else if logic = ''or''
               then JBool (list_ex (\<lambda>c. truthy (evaluate h (Some c) jobResult)) conditions)
               else if logic = ''not''
               then JBool (\<not> truthy (case conditions of
                                        [] \<Rightarrow> JBool False
                                      | c # rest \<Rightarrow> evaluate h (Some c) jobResult))
               else JBool False)
      else JBool False)"
  by pat_completeness auto

termination evaluate
proof (relation "measure (\<lambda>(h, c, jobResult). size_option size c)")
  show "wf (measure (\<lambda>(h, c, jobResult). size_option size c))"
    by simp
qed (auto split: option.splits simp: less_Suc_eq_le intro!: le_SucI size_list_estimation' [where f = size, OF _ order_refl])

section \<open>Scheduler: priorities and the deferred queue\<close>

text \<open>
  \<^verbatim>\<open>AdvancedScheduler.getPriorityValue\<close> and \<^verbatim>\<open>queueScheduleForLater\<close>
  (\<^verbatim>\<open>src/scheduler/index.js\<close>). The table is an object literal, so the lookup
  \<^verbatim>\<open>priorities[priority]\<close> also finds what the literal inherits.
\<close>

definition priorities :: "(string \<times> jsval) list" where
  "priorities =
     [(''critical'', JNum (Fin 0)), (''high'', JNum (Fin 1)),
      (''normal'', JNum (Fin 2)), (''low'', JNum (Fin 3))]"

definition getPriorityValue :: "string \<Rightarrow> jsval" where
  "getPriorityValue priority = jsOr (objectGet priorities priority) (JNum (Fin 2))"

record queued =
  q_scheduleId :: nat
  q_priority :: jsval
  q_queuedAt :: int

text \<open>
  \<^verbatim>\<open>jobQueue.sort((a, b) => a.priority - b.priority)\<close>, a stable sort: an entry
  moves behind another only when the comparator is negative for the pair.
\<close>

definition comparesBefore :: "host \<Rightarrow> queued \<Rightarrow> queued \<Rightarrow> bool" where
  "comparesBefore h a b =
     numLess (numSub (toNumber h (q_priority a)) (toNumber h (q_priority b))) (Fin 0)"

fun insertQueued :: "host \<Rightarrow> queued \<Rightarrow> queued list \<Rightarrow> queued list" where
  "insertQueued h x [] = [x]"
| "insertQueued h x (y # ys) =
     (if comparesBefore h y x then y # insertQueued h x ys else x # y # ys)"

definition sortQueue :: "host \<Rightarrow> queued list \<Rightarrow> queued list" where
  "sortQueue h q = foldr (insertQueued h) q []"

definition queueScheduleForLater ::
    "host \<Rightarrow> int \<Rightarrow> nat \<Rightarrow> string option \<Rightarrow> queued list \<Rightarrow> queued list" where
  "queueScheduleForLater h now scheduleId priority jobQueue =
     sortQueue h
       (jobQueue @
        [\<lparr>q_scheduleId = scheduleId,
          q_priority = jsPlus h (getPriorityValue (idText priority)) (JNum (Fin 1)),
          q_queuedAt = now\<rparr>])"

section \<open>Scheduler: the admission gates\<close>

text \<open>
  \<^verbatim>\<open>AdvancedScheduler.checkConcurrencyLimits\<close> and \<^verbatim>\<open>checkDependencies\<close>
  (\<^verbatim>\<open>src/scheduler/index.js\<close>), and \<^verbatim>\<open>MaintenanceWindows\<close>
  (\<^verbatim>\<open>src/scheduler/maintenance-windows.js\<close>). What the gates read from outside is
  gathered in one record: the outcome of each read of the store (\<open>Inl\<close> when the
  driver throws), the agents the server knows, the configured ceiling, the clock, and
  the cron library's \<^verbatim>\<open>previous()\<close> for a pattern and a time zone at a given clock
  reading (\<open>Inl\<close> when it throws, \<open>Inr None\<close> for \<^verbatim>\<open>null\<close>, otherwise a time in
  milliseconds). The call \<^verbatim>\<open>cron.previous()\<close> passes no argument, so the library sees
  the pattern, the zone and the clock only.
\<close>

record concurrency =
  maxPerNode :: "int option"
  maxPerMesh :: "int option"
  maxGlobal :: "int option"

record schedule =
  sch_id :: nat
  sch_name :: string
  sch_priority :: "string option"
  sch_concurrency :: "concurrency option"
  sch_maintenanceWindowIds :: "nat list option"
  sch_dependsOn :: "nat list option"
  sch_lastRun :: "int option"

record maintenanceWindow =
  mw_id :: nat
  mw_name :: string
  mw_enabled :: bool
  mw_cronExpression :: string
  mw_timezone :: "string option"
  mw_duration :: int
  mw_allowedPriorities :: jsval

record agent =
  dbMeshKey :: string

record surroundings =
  readJobs :: "string + job list"
  readSchedule :: "nat \<Rightarrow> string + schedule option"
  readWindows :: "string + maintenanceWindow list"
  wsagents :: "string \<Rightarrow> agent option"
  maxConcurrentJobs :: "int option"
  clock :: int
  cronPrevious :: "string \<Rightarrow> string \<Rightarrow> int \<Rightarrow> string + int option"

text \<open>A configured limit: the field is read only when it is truthy.\<close>

definition limitOf :: "schedule \<Rightarrow> (concurrency \<Rightarrow> int option) \<Rightarrow> int option" where
  "limitOf schedule field =
     (case sch_concurrency schedule of
        None \<Rightarrow> None
      | Some c \<Rightarrow> (case field c of None \<Rightarrow> None | Some n \<Rightarrow> if n = 0 then None else Some n))"

definition reached :: "'a list \<Rightarrow> int option \<Rightarrow> bool" where
  "reached xs limit = (case limit of None \<Rightarrow> False | Some n \<Rightarrow> int (length xs) \<ge> n)"

definition sameMesh :: "surroundings \<Rightarrow> agent \<Rightarrow> job \<Rightarrow> bool" where
  "sameMesh env a j =
     (case wsagents env (j_node j) of None \<Rightarrow> False | Some b \<Rightarrow> dbMeshKey b = dbMeshKey a)"

definition checkConcurrencyLimits :: "surroundings \<Rightarrow> schedule \<Rightarrow> string \<Rightarrow> bool" where
  "checkConcurrencyLimits env schedule nodeId =
     (case readJobs env of
        Inl e \<Rightarrow> True
      | Inr jobs \<Rightarrow>
          let runningJobs = filter (\<lambda>j. j_state j \<in> {''pending'', ''running''}) jobs
          in if reached (filter (\<lambda>j. j_node j = nodeId) runningJobs)
                  (limitOf schedule maxPerNode) then False
             else if (case wsagents env nodeId of
                        None \<Rightarrow> False
                      | Some a \<Rightarrow> reached (filter (sameMesh env a) runningJobs)
                                    (limitOf schedule maxPerMesh)) then False
             else if reached runningJobs (limitOf schedule maxGlobal) then False
             else if int (length runningJobs) \<ge> numOr (maxConcurrentJobs env) 50 then False
             else True)"

text \<open>
  The loop of \<^verbatim>\<open>checkDependencies\<close>, with a throw of the store as \<open>Inl\<close>; the
  function itself catches it.
\<close>

fun dependenciesLoop :: "surroundings \<Rightarrow> schedule \<Rightarrow> nat list \<Rightarrow> string + bool" where
  "dependenciesLoop env schedule [] = Inr True"
| "dependenciesLoop env schedule (depId # rest) =
     (case readSchedule env depId of
        Inl e \<Rightarrow> Inl e
      | Inr None \<Rightarrow> Inr False
      | Inr (Some depSchedule) \<Rightarrow>
          (case sch_lastRun depSchedule of
             None \<Rightarrow> Inr False
           | Some depRan \<Rightarrow>
               if depRan = 0 then Inr False
               else if (case sch_lastRun schedule of
                          None \<Rightarrow> False
                        | Some ownRan \<Rightarrow> ownRan \<noteq> 0 \<and> depRan < ownRan) then Inr False
               else dependenciesLoop env schedule rest))"

definition checkDependencies :: "surroundings \<Rightarrow> schedule \<Rightarrow> bool" where
  "checkDependencies env schedule =
     (case sch_dependsOn schedule of
        None \<Rightarrow> False
      | Some deps \<Rightarrow>
          (case dependenciesLoop env schedule deps of Inl e \<Rightarrow> False | Inr b \<Rightarrow> b))"

record verdict =
  allowed :: bool
  reason :: string

definition getMaintenanceWindows :: "surroundings \<Rightarrow> nat list \<Rightarrow> maintenanceWindow list" where
  "getMaintenanceWindows env windowIds =
     (case readWindows env of
        Inl e \<Rightarrow> []
      | Inr ws \<Rightarrow> filter (\<lambda>w. mw_id w \<in> set windowIds) ws)"

definition isInMaintenanceWindow :: "surroundings \<Rightarrow> maintenanceWindow \<Rightarrow> int \<Rightarrow> bool" where
  "isInMaintenanceWindow env window timestamp =
     (let checkTime = (if timestamp \<noteq> 0 then timestamp else clock env)
      in case cronPrevious env (mw_cronExpression window) (strOr (mw_timezone window) ''UTC'')
                (clock env) of
           Inl e \<Rightarrow> False
         | Inr None \<Rightarrow> False
         | Inr (Some prevRunTime) \<Rightarrow>
             let windowEnd = prevRunTime + mw_duration window * 1000
             in checkTime \<ge> prevRunTime \<and> checkTime \<le> windowEnd)"

text \<open>
  For comparison, the test as the specification words it: the window starts at the
  latest fire time of its pattern not after the queried timestamp, which is what the
  cron library answers when the clock reads that timestamp.
\<close>

definition insideWindowAsSpecified :: "surroundings \<Rightarrow> maintenanceWindow \<Rightarrow> int \<Rightarrow> bool" where
  "insideWindowAsSpecified env window timestamp =
     (case cronPrevious env (mw_cronExpression window) (strOr (mw_timezone window) ''UTC'')
             timestamp of
        Inl e \<Rightarrow> False
      | Inr None \<Rightarrow> False
      | Inr (Some lastWindowStart) \<Rightarrow>
          lastWindowStart \<le> timestamp
          \<and> timestamp \<le> lastWindowStart + mw_duration window * 1000)"

text \<open>
  \<^verbatim>\<open>window.allowedPriorities && window.allowedPriorities.includes(schedule.priority)\<close>.
  An array looks the priority up among its elements, a text searches for it, and any
  other truthy value has no \<^verbatim>\<open>includes\<close>: the call throws (\<open>Inl\<close>).
\<close>

definition priorityAllowed :: "jsval \<Rightarrow> string option \<Rightarrow> string + bool" where
  "priorityAllowed allowedPriorities priority =
     (if \<not> truthy allowedPriorities then Inr False
      else case allowedPriorities of
             JArr vs \<Rightarrow>
               Inr ((case priority of None \<Rightarrow> JUndefined | Some p \<Rightarrow> JStr p) \<in> set vs)
           | JStr s \<Rightarrow> Inr (includesText s (idText priority))
           | _ \<Rightarrow> Inl ''allowedPriorities.includes is not a function'')"

fun windowsLoop ::
    "surroundings \<Rightarrow> schedule \<Rightarrow> int \<Rightarrow> maintenanceWindow list \<Rightarrow> string + verdict" where
  "windowsLoop env schedule timestamp [] =
     Inr \<lparr>allowed = True, reason = ''Not in any maintenance window''\<rparr>"
| "windowsLoop env schedule timestamp (window # rest) =
     (if \<not> mw_enabled window then windowsLoop env schedule timestamp rest
      else if isInMaintenanceWindow env window timestamp then
        (case priorityAllowed (mw_allowedPriorities window) (sch_priority schedule) of
           Inl e \<Rightarrow> Inl e
         | Inr True \<Rightarrow>
             Inr \<lparr>allowed = True,
                  reason = ''Priority '' @ singleQuoted (idText (sch_priority schedule))
                           @ '' is allowed during maintenance window ''
                           @ singleQuoted (mw_name window)\<rparr>
         | Inr False \<Rightarrow>
             Inr \<lparr>allowed = False,
                  reason = ''Blocked by maintenance window ''
                           @ singleQuoted (mw_name window)\<rparr>)
      else windowsLoop env schedule timestamp rest)"

text \<open>\<^verbatim>\<open>canJobRun(schedule, timestamp = Date.now())\<close>: \<open>None\<close> is the omitted argument.\<close>

definition canJobRun :: "surroundings \<Rightarrow> schedule \<Rightarrow> int option \<Rightarrow> verdict" where
  "canJobRun env schedule timestamp =
     (case sch_maintenanceWindowIds schedule of
        None \<Rightarrow> \<lparr>allowed = True, reason = ''No maintenance windows defined''\<rparr>
      | Some windowIds \<Rightarrow>
          if windowIds = [] then \<lparr>allowed = True, reason = ''No maintenance windows defined''\<rparr>
          else (case windowsLoop env schedule
                       (case timestamp of None \<Rightarrow> clock env | Some t \<Rightarrow> t)
                       (getMaintenanceWindows env windowIds) of
                  Inl e \<Rightarrow> \<lparr>allowed = True, reason = ''Error checking maintenance windows''\<rparr>
                | Inr v \<Rightarrow> v))"

section \<open>Workflow builder: validation\<close>

text \<open>
  \<^verbatim>\<open>WorkflowBuilder\<close> (\<^verbatim>\<open>src/unnamed/part_003\<close>). Each validator returns the errors it
  would push, in order.
\<close>

record validation =
  valid :: bool
  errors :: "string list"

definition notPositiveNumber :: "jsval \<Rightarrow> bool" where
  "notPositiveNumber v = (case v of JNum n \<Rightarrow> numLe n (Fin 0) | _ \<Rightarrow> True)"

definition validateScriptStep :: "step \<Rightarrow> string list" where
  "validateScriptStep st =
     (if \<not> present (s_scriptId st) \<and> \<not> present (s_script st)
      then [''Step '' @ idText (s_id st) @ '': script step must have scriptId or script defined'']
      else [])"

definition validateWebhookStep :: "host \<Rightarrow> step \<Rightarrow> string list" where
  "validateWebhookStep h st =
     (if \<not> present (s_url st)
      then [''Step '' @ idText (s_id st) @ '': webhook step must have url defined'']
      else if \<not> urlParses h (idText (s_url st))
      then [''Step '' @ idText (s_id st) @ '': invalid webhook URL ''
            @ doubleQuoted (idText (s_url st))]
      else [])
     @ (if present (s_method st)
           \<and> idText (s_method st) \<notin> set [''GET'', ''POST'', ''PUT'', ''PATCH'', ''DELETE'']
        then [''Step '' @ idText (s_id st) @ '': invalid HTTP method ''
              @ doubleQuoted (idText (s_method st))]
        else [])"

definition validateEmailStep :: "step \<Rightarrow> string list" where
  "validateEmailStep st =
     (if \<not> present (s_to st)
      then [''Step '' @ idText (s_id st) @ '': email step must have to field defined'']
      else [])
     @ (if \<not> present (s_subject st)
        then [''Step '' @ idText (s_id st) @ '': email step must have subject defined'']
        else [])
     @ (if \<not> present (s_body st) \<and> \<not> present (s_template st)
        then [''Step '' @ idText (s_id st) @ '': email step must have body or template defined'']
        else [])"

definition validateDelayStep :: "step \<Rightarrow> string list" where
  "validateDelayStep st =
     (if \<not> truthy (s_duration st)
      then [''Step '' @ idText (s_id st) @ '': delay step must have duration defined'']
      else if notPositiveNumber (s_duration st)
      then [''Step '' @ idText (s_id st) @ '': delay duration must be a positive number'']
      else [])"

definition validateConditionStep :: "step \<Rightarrow> string list" where
  "validateConditionStep st =
     (if s_condition st = None
      then [''Step '' @ idText (s_id st) @ '': condition step must have condition defined'']
      else [])
     @ (if \<not> present (s_onTrue st) \<and> \<not> present (s_onFalse st)
        then [''Step '' @ idText (s_id st)
              @ '': condition step must have at least onTrue or onFalse defined'']
        else [])"

definition validateStep :: "host \<Rightarrow> step \<Rightarrow> string list" where
  "validateStep h st =
     (if \<not> present (s_id st) then [''Step must have an id'']
      else if \<not> present (s_type st)
      then [''Step '' @ idText (s_id st) @ '': must have a type'']
      else
        (if idText (s_type st) \<notin> set stepTypes
         then [''Step '' @ idText (s_id st) @ '': invalid type ''
               @ doubleQuoted (idText (s_type st))
               @ ''. Must be one of: '' @ joinWith '', '' stepTypes]
         else [])
        @ (if s_timeout st \<noteq> JUndefined \<and> notPositiveNumber (s_timeout st)
           then [''Step '' @ idText (s_id st) @ '': timeout must be a positive number'']
           else [])
        @ (if s_type st = Some ''script'' then validateScriptStep st
           else if s_type st = Some ''webhook'' then validateWebhookStep h st
           else if s_type st = Some ''email'' then validateEmailStep st
           else if s_type st = Some ''delay'' then validateDelayStep st
           else if s_type st = Some ''condition'' then validateConditionStep st
           else []))"

subsection \<open>Cycle detection\<close>

text \<open>
  \<^verbatim>\<open>checkCircularDependencies\<close> is a depth-first search over two mutable sets and an
  error list, which the model threads through the calls as a state. The map from
  step ids to steps is built by \<^verbatim>\<open>stepMap.set\<close> in list order, so a later step with
  the same id replaces an earlier one.
\<close>

record search =
  visited :: "string set"
  recursionStack :: "string set"
  found :: "string list"

definition stepMapOf :: "step list \<Rightarrow> string option \<Rightarrow> step option" where
  "stepMapOf steps = map_of (rev (map (\<lambda>st. (s_id st, st)) steps))"

text \<open>The targets that \<^verbatim>\<open>detectCycle\<close> descends into from a step, in the order of the
  source: each is followed only when truthy, the last two only from a condition step.\<close>

definition transitions :: "step \<Rightarrow> string list" where
  "transitions st =
     map idText
       (filter present
          ([s_onSuccess st, s_onFailure st]
           @ (if s_type st = Some ''condition'' then [s_onTrue st, s_onFalse st] else [])))"

text \<open>
  The first argument bounds the depth of the recursion (\<open>None\<close>: bound reached).
  \<open>descend\<close> is the sequence of calls on a step's targets.
\<close>

fun detectCycle ::
    "nat \<Rightarrow> (string option \<Rightarrow> step option) \<Rightarrow> string option \<Rightarrow> string list \<Rightarrow> search
       \<Rightarrow> (bool \<times> search) option"
  and descend ::
    "nat \<Rightarrow> (string option \<Rightarrow> step option) \<Rightarrow> string list \<Rightarrow> string list \<Rightarrow> search
       \<Rightarrow> search option"
where
  "detectCycle 0 stepMap stepId path s = None"
| "detectCycle (Suc n) stepMap stepId path s =
     (case stepId of
        None \<Rightarrow> Some (False, s)
      | Some v \<Rightarrow>
          if v = [] then Some (False, s)
          else if v \<in> recursionStack s
          then Some (True, s\<lparr>found := found s
                   @ [''Circular dependency detected: '' @ joinWith '' -> '' (path @ [v])]\<rparr>)
          else if v \<in> visited s then Some (False, s)
          else
            let s1 = s\<lparr>visited := insert v (visited s),
                       recursionStack := insert v (recursionStack s)\<rparr>
            in case stepMap (Some v) of
                 None \<Rightarrow> Some (False, s1\<lparr>recursionStack := recursionStack s1 - {v}\<rparr>)
               | Some st \<Rightarrow>
                   (case descend n stepMap (transitions st) (path @ [v]) s1 of
                      None \<Rightarrow> None
                    | Some s2 \<Rightarrow>
                        Some (False, s2\<lparr>recursionStack := recursionStack s2 - {v}\<rparr>)))"
| "descend n stepMap [] path s = Some s"
| "descend n stepMap (t # ts) path s =
     (case detectCycle n stepMap (Some t) path s of
        None \<Rightarrow> None
      | Some (r, s') \<Rightarrow> descend n stepMap ts path s')"

text \<open>The second loop: every step whose id is still unvisited starts a search.\<close>

fun unvisitedLoop ::
    "nat \<Rightarrow> (string option \<Rightarrow> step option) \<Rightarrow> step list \<Rightarrow> search \<Rightarrow> search option" where
  "unvisitedLoop n stepMap [] s = Some s"
| "unvisitedLoop n stepMap (st # rest) s =
     (if (case s_id st of None \<Rightarrow> False | Some v \<Rightarrow> v \<in> visited s)
      then unvisitedLoop n stepMap rest s
      else case detectCycle n stepMap (s_id st) [] s of
             None \<Rightarrow> None
           | Some (r, s') \<Rightarrow> unvisitedLoop n stepMap rest s')"

definition searchAll :: "nat \<Rightarrow> step list \<Rightarrow> string option \<Rightarrow> search option" where
  "searchAll n steps startStep =
     (let stepMap = stepMapOf steps;
          s0 = \<lparr>visited = {}, recursionStack = {}, found = []\<rparr>
      in case (if present startStep
               then map_option snd (detectCycle n stepMap startStep [] s0) else Some s0) of
           None \<Rightarrow> None
         | Some s1 \<Rightarrow> unvisitedLoop n stepMap steps s1)"

text \<open>The search never goes deeper than there are steps, so this bound is never
  reached (lemma \<open>checkCircularDependencies_returns\<close>).\<close>

definition checkCircularDependencies :: "step list \<Rightarrow> string option \<Rightarrow> validation option" where
  "checkCircularDependencies steps startStep =
     map_option (\<lambda>s. \<lparr>valid = (found s = []), errors = found s\<rparr>)
       (searchAll (Suc (length steps)) steps startStep)"

definition danglingTargets :: "string option list \<Rightarrow> step \<Rightarrow> string list" where
  "danglingTargets stepIds st =
     (if present (s_onSuccess st) \<and> s_onSuccess st \<notin> set stepIds
      then [''Step '' @ idText (s_id st) @ '': onSuccess references non-existent step ''
            @ idText (s_onSuccess st)]
      else [])
     @ (if present (s_onFailure st) \<and> s_onFailure st \<notin> set stepIds
        then [''Step '' @ idText (s_id st) @ '': onFailure references non-existent step ''
              @ idText (s_onFailure st)]
        else [])"

text \<open>The errors of \<^verbatim>\<open>validateWorkflow\<close> that come before the cycle check, in the order
  in which the source pushes them.\<close>

definition structuralErrors :: "host \<Rightarrow> workflow \<Rightarrow> step list \<Rightarrow> string list" where
  "structuralErrors h wfl steps =
     (let stepIds = map s_id steps
      in (if length stepIds \<noteq> length (remdups stepIds)
          then [''All step IDs must be unique''] else [])
         @ concat (map (validateStep h) steps)
         @ concat (map (danglingTargets stepIds) steps)
         @ (if \<not> present (w_startStep wfl)
            then [''Workflow must have a startStep defined'']
            else if w_startStep wfl \<notin> set stepIds
            then [''startStep '' @ idText (w_startStep wfl) @ '' does not exist in steps'']
            else []))"

definition validateWorkflow :: "host \<Rightarrow> workflow \<Rightarrow> validation option" where
  "validateWorkflow h wfl =
     (case w_steps wfl of
        None \<Rightarrow> Some \<lparr>valid = False, errors = [''Workflow must have a steps array'']\<rparr>
      | Some steps \<Rightarrow>
          if steps = []
          then Some \<lparr>valid = False, errors = [''Workflow must have at least one step'']\<rparr>
          else
            (case checkCircularDependencies steps (w_startStep wfl) of
               None \<Rightarrow> None
             | Some circularCheck \<Rightarrow>
                 let errs = structuralErrors h wfl steps
                            @ (if \<not> valid circularCheck then errors circularCheck else [])
                 in Some \<lparr>valid = (errs = []), errors = errs\<rparr>))"

text \<open>
  The graph that the search walks: an edge leads from the id of a step in the map to
  each of its targets. A workflow is cyclic when some id reaches itself along at least
  one edge.
\<close>

definition edgesOf :: "(string option \<Rightarrow> step option) \<Rightarrow> (string \<times> string) set" where
  "edgesOf stepMap = {(a, b). \<exists>st. stepMap (Some a) = Some st \<and> b \<in> set (transitions st)}"

definition circular :: "string \<Rightarrow> bool" where
  "circular e = startsWith e ''Circular dependency detected: ''"

definition cyclic :: "step list \<Rightarrow> bool" where
  "cyclic steps = (\<exists>v. (v, v) \<in> (edgesOf (stepMapOf steps))\<^sup>+)"

text \<open>
  For the proof: the nodes the search has left (visited and no longer on the stack),
  and what holds of them as long as no error was recorded: edges from them lead to
  them, and none of them lies on a cycle.
\<close>

definition finished :: "search \<Rightarrow> string set" where
  "finished s = visited s - recursionStack s"

definition settled :: "(string \<times> string) set \<Rightarrow> string set \<Rightarrow> bool" where
  "settled E B = ((\<forall>x\<in>B. \<forall>y. (x, y) \<in> E \<longrightarrow> y \<in> B) \<and> (\<forall>x\<in>B. (x, x) \<notin> E\<^sup>+))"

text \<open>The ids that the step map knows; the search cannot stack more of them than there are.\<close>

definition mapped :: "(string option \<Rightarrow> step option) \<Rightarrow> string set" where
  "mapped m = {v. m (Some v) \<noteq> None}"

section \<open>The store and the engine's state\<close>

text \<open>
  The collection, seen through the queries the engine makes: the workflow, execution,
  job and quarantine documents in insertion order, and the next identifier
  \<^verbatim>\<open>insertOne\<close> hands out. \<^verbatim>\<open>findOne\<close> answers the first match and \<^verbatim>\<open>updateOne\<close>
  changes the first match. The store is taken to answer every call; the engine's
  own state is the map of active executions (its keys) and the set of quarantined
  nodes. Step timers are not modelled.
\<close>

record quarantine =
  qn_nodeId :: string
  qn_active :: bool

record store =
  workflows :: "workflow list"
  executions :: "execution list"
  jobs :: "job list"
  quarantines :: "quarantine list"
  nextId :: nat

record engine =
  db :: store
  activeExecutions :: "nat set"
  quarantinedNodes :: "string set"

fun updateFirst :: "('a \<Rightarrow> bool) \<Rightarrow> ('a \<Rightarrow> 'a) \<Rightarrow> 'a list \<Rightarrow> 'a list" where
  "updateFirst p f [] = []"
| "updateFirst p f (x # xs) = (if p x then f x # xs else x # updateFirst p f xs)"

definition findWorkflow :: "store \<Rightarrow> nat \<Rightarrow> workflow option" where
  "findWorkflow d workflowId = find (\<lambda>w. w_id w = workflowId) (workflows d)"

definition findExecution :: "store \<Rightarrow> nat \<Rightarrow> execution option" where
  "findExecution d executionId = find (\<lambda>e. e_id e = executionId) (executions d)"

definition findRunning :: "store \<Rightarrow> nat \<Rightarrow> string \<Rightarrow> execution option" where
  "findRunning d workflowId nodeId =
     find (\<lambda>e. e_workflowId e = workflowId \<and> e_nodeId e = nodeId \<and> e_status e = ''running'')
       (executions d)"

definition updateExecution :: "store \<Rightarrow> nat \<Rightarrow> (execution \<Rightarrow> execution) \<Rightarrow> store" where
  "updateExecution d executionId f =
     d\<lparr>executions := updateFirst (\<lambda>e. e_id e = executionId) f (executions d)\<rparr>"

definition insertExecution :: "store \<Rightarrow> execution \<Rightarrow> store \<times> nat" where
  "insertExecution d e =
     (d\<lparr>executions := executions d @ [e\<lparr>e_id := nextId d\<rparr>], nextId := Suc (nextId d)\<rparr>,
      nextId d)"

definition insertJob :: "store \<Rightarrow> job \<Rightarrow> store" where
  "insertJob d j = d\<lparr>jobs := jobs d @ [j\<lparr>j_id := nextId d\<rparr>], nextId := Suc (nextId d)\<rparr>"

section \<open>Action handler: rollback\<close>

text \<open>
  \<^verbatim>\<open>ActionHandler.performRollback\<close> (\<^verbatim>\<open>src/remediation/actions.js\<close>). The first loop
  walks the step results from the last to the first and collects the rollback steps;
  \<^verbatim>\<open>workflow.steps.find\<close> throws when the workflow has no steps array (\<open>None\<close>), and
  the function's own handler then leaves the store as it was. The second loop queues
  one job per collected step, and the execution is marked last.
\<close>

fun collectRollbackSteps ::
    "workflow \<Rightarrow> stepResult list \<Rightarrow> (string option \<times> string) list option" where
  "collectRollbackSteps w [] = Some []"
| "collectRollbackSteps w (stepResult # earlier) =
     (if r_status stepResult = ''success'' then
        (case w_steps w of
           None \<Rightarrow> None
         | Some steps \<Rightarrow>
             (case find (\<lambda>st. s_id st = r_stepId stepResult) steps of
                None \<Rightarrow> collectRollbackSteps w earlier
              | Some st \<Rightarrow>
                  if present (s_rollbackScriptId st)
                  then map_option (\<lambda>more. (s_id st, idText (s_rollbackScriptId st)) # more)
                         (collectRollbackSteps w earlier)
                  else collectRollbackSteps w earlier))
      else collectRollbackSteps w earlier)"

definition rollbackJob :: "execution \<Rightarrow> int \<Rightarrow> string option \<times> string \<Rightarrow> job" where
  "rollbackJob execution now rollbackStep =
     \<lparr>j_id = 0, j_scriptId = snd rollbackStep, j_node = e_nodeId execution,
      j_state = ''pending'', j_queueTime = now div 1000, j_priority = ''high'',
      j_remediationExecutionId = Some (e_id execution),
      j_tags = [''rollback'', ''remediation''],
      j_reason = ''Rollback from failed remediation'',
      j_originalStepId = fst rollbackStep\<rparr>"

definition performRollback :: "store \<Rightarrow> nat \<Rightarrow> int \<Rightarrow> store" where
  "performRollback d executionId now =
     (case findExecution d executionId of
        None \<Rightarrow> d
      | Some execution \<Rightarrow>
          (case findWorkflow d (e_workflowId execution) of
             None \<Rightarrow> d
           | Some w \<Rightarrow>
               if \<not> w_rollbackEnabled w then d
               else (case collectRollbackSteps w (rev (e_stepResults execution)) of
                       None \<Rightarrow> d
                     | Some rollbackSteps \<Rightarrow>
                         updateExecution
                           (foldl (\<lambda>d' rollbackStep.
                                     insertJob d' (rollbackJob execution now rollbackStep))
                              d rollbackSteps)
                           (e_id execution)
                           (\<lambda>e. e\<lparr>e_status := ''rolled_back'', e_completedAt := Some now\<rparr>))))"

section \<open>Remediation engine: trigger, completion, start-up\<close>

text \<open>
  \<^verbatim>\<open>RemediationEngine.triggerWorkflow\<close>, \<^verbatim>\<open>completeExecution\<close> and \<^verbatim>\<open>initialize\<close>
  (\<^verbatim>\<open>src/remediation/engine.js\<close>). \<^verbatim>\<open>triggerWorkflow\<close> returns the execution, or
  throws (\<open>Inl\<close>); the run of the workflow that it starts without waiting for it is
  not part of what it returns.
\<close>

definition triggerWorkflow ::
    "host \<Rightarrow> engine \<Rightarrow> nat \<Rightarrow> string \<Rightarrow> string \<Rightarrow> string option \<Rightarrow> int
       \<Rightarrow> (string + execution) \<times> engine" where
  "triggerWorkflow h eng workflowId nodeId triggeredBy triggerType now =
     (case findWorkflow (db eng) workflowId of
        None \<Rightarrow> (Inl (''Workflow '' @ decimal workflowId @ '' not found''), eng)
      | Some w \<Rightarrow>
          if \<not> w_enabled w
          then (Inl (''Workflow '' @ decimal workflowId @ '' is disabled''), eng)
          else
            (case findRunning (db eng) workflowId nodeId of
               Some existing \<Rightarrow> (Inr existing, eng)
             | None \<Rightarrow>
                 (case validateWorkflow h w of
                    None \<Rightarrow> (Inl ''Workflow validation did not return'', eng)
                  | Some validation \<Rightarrow>
                      if \<not> valid validation
                      then (Inl (''Workflow validation failed: ''
                                  @ joinWith '', '' (errors validation)), eng)
                      else
                        let execution =
                              \<lparr>e_id = 0, e_workflowId = workflowId, e_workflowName = w_name w,
                               e_nodeId = nodeId, e_status = ''running'',
                               e_currentStep = w_startStep w, e_triggeredBy = triggeredBy,
                               e_triggerType = strOr triggerType ''manual'',
                               e_startTime = now, e_endTime = None, e_stepResults = [],
                               e_completionReason = None, e_completedAt = None\<rparr>;
                            inserted = insertExecution (db eng) execution
                        in (Inr (execution\<lparr>e_id := snd inserted\<rparr>),
                            eng\<lparr>db := fst inserted,
                                activeExecutions :=
                                  insert (snd inserted) (activeExecutions eng)\<rparr>))))"

definition completeExecution ::
    "engine \<Rightarrow> execution \<Rightarrow> string \<Rightarrow> string option \<Rightarrow> int \<Rightarrow> engine" where
  "completeExecution eng execution status completionReason now =
     (let d1 = updateExecution (db eng) (e_id execution)
                 (\<lambda>e. e\<lparr>e_status := status, e_endTime := Some now,
                         e_completionReason := completionReason\<rparr>);
          d2 = (if status = ''failed'' then
                  (case findWorkflow d1 (e_workflowId execution) of
                     None \<Rightarrow> d1
                   | Some w \<Rightarrow>
                       if w_rollbackEnabled w then performRollback d1 (e_id execution) now
                       else d1)
                else d1)
      in eng\<lparr>db := d2, activeExecutions := activeExecutions eng - {e_id execution}\<rparr>)"

definition initialize :: "engine \<Rightarrow> int \<Rightarrow> engine" where
  "initialize eng now =
     (let quarantined = filter qn_active (quarantines (db eng));
          eng1 = eng\<lparr>quarantinedNodes := quarantinedNodes eng \<union> set (map qn_nodeId quarantined)\<rparr>;
          inProgress = filter (\<lambda>e. e_status e = ''running'') (executions (db eng1))
      in foldl (\<lambda>eng' execution.
                  completeExecution eng' execution ''failed''
                    (Some ''Engine restart - execution interrupted'') now)
           eng1 inProgress)"

text \<open>
  What a completion with status \<^verbatim>\<open>failed\<close> will roll back for a stored execution: the
  collected rollback steps, or \<open>None\<close> when no rollback takes place (the workflow is
  gone, has rollback switched off, or has no steps array to look a step up in).
\<close>

definition rollbackPlan :: "store \<Rightarrow> execution \<Rightarrow> (string option \<times> string) list option" where
  "rollbackPlan d execution =
     (case findWorkflow d (e_workflowId execution) of
        None \<Rightarrow> None
      | Some w \<Rightarrow>
          if w_rollbackEnabled w
          then collectRollbackSteps w (rev (e_stepResults execution)) else None)"

text \<open>A step result whose step, looked up in the workflow, declares a rollback script.\<close>

definition declaresRollback :: "step list \<Rightarrow> stepResult \<Rightarrow> bool" where
  "declaresRollback steps r =
     (case find (\<lambda>st. s_id st = r_stepId r) steps of
        None \<Rightarrow> False
      | Some st \<Rightarrow> present (s_rollbackScriptId st))"

definition rollbackScriptOf :: "step list \<Rightarrow> stepResult \<Rightarrow> string" where
  "rollbackScriptOf steps r =
     (case find (\<lambda>st. s_id st = r_stepId r) steps of
        None \<Rightarrow> []
      | Some st \<Rightarrow> idText (s_rollbackScriptId st))"

text \<open>The two updates of an execution record that completion makes, and the record a
  running execution ends as when the engine starts up.\<close>

definition finish :: "string \<Rightarrow> string option \<Rightarrow> int \<Rightarrow> execution \<Rightarrow> execution" where
  "finish status completionReason now =
     (\<lambda>e. e\<lparr>e_status := status, e_endTime := Some now,
             e_completionReason := completionReason\<rparr>)"

definition markRolledBack :: "int \<Rightarrow> execution \<Rightarrow> execution" where
  "markRolledBack now = (\<lambda>e. e\<lparr>e_status := ''rolled_back'', e_completedAt := Some now\<rparr>)"

definition interrupted :: "store \<Rightarrow> int \<Rightarrow> execution \<Rightarrow> execution" where
  "interrupted d now e =
     (let failed = finish ''failed'' (Some ''Engine restart - execution interrupted'') now e
      in case rollbackPlan d e of None \<Rightarrow> failed | Some plan \<Rightarrow> markRolledBack now failed)"

text \<open>Jobs as \<^verbatim>\<open>insertOne\<close> stores them one after the other: numbered from the next
  free identifier.\<close>

fun renumber :: "nat \<Rightarrow> job list \<Rightarrow> job list" where
  "renumber n [] = []"
| "renumber n (j # js) = j\<lparr>j_id := n\<rparr> # renumber (Suc n) js"

definition queueAll :: "store \<Rightarrow> job list \<Rightarrow> store" where
  "queueAll d js = foldl insertJob d js"

text \<open>The loop of \<^verbatim>\<open>initialize\<close> over the executions found running.\<close>

definition restart :: "int \<Rightarrow> engine \<Rightarrow> execution list \<Rightarrow> engine" where
  "restart now eng xs =
     foldl (\<lambda>eng' execution.
                  completeExecution eng' execution ''failed''
                    (Some ''Engine restart - execution interrupted'') now) eng xs"

section \<open>Documents used in the examples\<close>

definition emptyStep :: step where
  "emptyStep =
     \<lparr>s_id = None, s_type = None, s_name = None, s_timeout = JUndefined,
      s_scriptId = None, s_script = None, s_url = None, s_method = None, s_to = None,
      s_subject = None, s_body = None, s_template = None, s_duration = JUndefined,
      s_condition = None, s_onSuccess = None, s_onFailure = None, s_onTrue = None,
      s_onFalse = None, s_rollbackScriptId = None, s_retryPolicy = None\<rparr>"

definition scriptStep :: "string \<Rightarrow> string \<Rightarrow> step" where
  "scriptStep i script =
     emptyStep\<lparr>s_id := Some i, s_type := Some ''script'', s_scriptId := Some script\<rparr>"

definition emptyExecution :: execution where
  "emptyExecution =
     \<lparr>e_id = 0, e_workflowId = 0, e_workflowName = None, e_nodeId = [],
      e_status = ''running'', e_currentStep = None, e_triggeredBy = [],
      e_triggerType = ''manual'', e_startTime = 0, e_endTime = None, e_stepResults = [],
      e_completionReason = None, e_completedAt = None\<rparr>"

definition resultOf :: "string \<Rightarrow> string \<Rightarrow> nat \<Rightarrow> stepResult" where
  "resultOf i status n =
     \<lparr>r_stepId = Some i, r_stepName = Some i, r_stepType = Some ''script'',
      r_status = status, r_output = JUndefined, r_error = None, r_retryCount = n\<rparr>"

text \<open>A script step \<^verbatim>\<open>fix\<close> with a retry policy, and an execution whose recorded result
  for that step carries a given retry count.\<close>

definition backoffStep :: "string \<Rightarrow> int \<Rightarrow> int \<Rightarrow> step" where
  "backoffStep kind base most =
     (scriptStep ''fix'' ''cleanup'')
       \<lparr>s_retryPolicy := Some \<lparr>maxAttempts = Some most, backoffType = Some kind,
                                delaySeconds = Some base\<rparr>\<rparr>"

definition retriedExecution :: "nat \<Rightarrow> execution" where
  "retriedExecution n = emptyExecution\<lparr>e_stepResults := [resultOf ''fix'' ''failed'' n]\<rparr>"

definition succeeded :: stepOutcome where
  "succeeded =
     \<lparr>o_status = ''success'', o_output = JUndefined, o_error = None,
      o_conditionResult = False, o_retryCount = None\<rparr>"

text \<open>
  A cron library as the comment in \<^verbatim>\<open>isInMaintenanceWindow\<close> expects it
  (\<^verbatim>\<open>Get the previous run time from cron\<close>), knowing one pattern: every day at 02:00
  UTC. Asked at a clock reading, it answers the latest such instant not after the
  reading. The library itself is not part of the source; surroundings in which
  \<^verbatim>\<open>previous\<close> throws or answers \<^verbatim>\<open>null\<close> are covered by the fields \<open>Inl\<close> and
  \<open>Inr None\<close> of \<open>cronPrevious\<close>.
\<close>

definition everyDayAt :: "int \<Rightarrow> int \<Rightarrow> int" where
  "everyDayAt offset now = ((now - offset) div 86400000) * 86400000 + offset"

definition nightlyCron :: "string \<Rightarrow> string \<Rightarrow> int \<Rightarrow> string + int option" where
  "nightlyCron pattern zone now =
     (if pattern = ''0 2 * * *'' \<and> zone = ''UTC'' then Inr (Some (everyDayAt 7200000 now))
      else Inl ''unsupported pattern'')"

definition nightlyWindow :: maintenanceWindow where
  "nightlyWindow =
     \<lparr>mw_id = 1, mw_name = ''Nightly Maintenance'', mw_enabled = True,
      mw_cronExpression = ''0 2 * * *'', mw_timezone = Some ''UTC'', mw_duration = 7200,
      mw_allowedPriorities = JArr [JStr ''critical'']\<rparr>"

definition scheduleWith :: "string \<Rightarrow> schedule" where
  "scheduleWith priority =
     \<lparr>sch_id = 5, sch_name = ''patch'', sch_priority = Some priority,
      sch_concurrency = None, sch_maintenanceWindowIds = Some [1], sch_dependsOn = Some [6],
      sch_lastRun = None\<rparr>"

text \<open>The surroundings at a clock reading, with a healthy store holding the window and
  the cron library above.\<close>

definition healthyAt :: "int \<Rightarrow> surroundings" where
  "healthyAt now =
     \<lparr>readJobs = Inr [], readSchedule = (\<lambda>i. Inr None), readWindows = Inr [nightlyWindow],
      wsagents = (\<lambda>n. None), maxConcurrentJobs = None, clock = now,
      cronPrevious = nightlyCron\<rparr>"

text \<open>The same surroundings with every read of the store and every call of the cron
  library throwing.\<close>

definition brokenAt :: "int \<Rightarrow> surroundings" where
  "brokenAt now =
     \<lparr>readJobs = Inl ''connection lost'', readSchedule = (\<lambda>i. Inl ''connection lost''),
      readWindows = Inl ''connection lost'', wsagents = (\<lambda>n. None),
      maxConcurrentJobs = None, clock = now,
      cronPrevious = (\<lambda>p z t. Inl ''cron.previous is not a function'')\<rparr>"

text \<open>Three workflows of script steps: the cycle \<^verbatim>\<open>A -> B -> A\<close>, the chain
  \<^verbatim>\<open>A -> B -> C\<close>, and a start step \<^verbatim>\<open>S\<close> beside the cycle \<^verbatim>\<open>B -> C -> B\<close>.\<close>

definition workflowOf :: "step list \<Rightarrow> string \<Rightarrow> workflow" where
  "workflowOf steps start =
     \<lparr>w_id = 1, w_name = Some ''example'', w_enabled = True, w_steps = Some steps,
      w_startStep = Some start, w_rollbackEnabled = False, w_escalationEnabled = False\<rparr>"

definition cycleAB :: "step list" where
  "cycleAB =
     [(scriptStep ''A'' ''check'')\<lparr>s_onSuccess := Some ''B''\<rparr>,
      (scriptStep ''B'' ''repair'')\<lparr>s_onSuccess := Some ''A''\<rparr>]"

definition chainABC :: "step list" where
  "chainABC =
     [(scriptStep ''A'' ''check'')\<lparr>s_onSuccess := Some ''B''\<rparr>,
      (scriptStep ''B'' ''repair'')\<lparr>s_onSuccess := Some ''C''\<rparr>,
      scriptStep ''C'' ''verify'']"

definition cycleAside :: "step list" where
  "cycleAside =
     [scriptStep ''S'' ''check'',
      (scriptStep ''B'' ''repair'')\<lparr>s_onSuccess := Some ''C''\<rparr>,
      (scriptStep ''C'' ''verify'')\<lparr>s_onFailure := Some ''B''\<rparr>]"

text \<open>
  A patch workflow with rollback enabled: \<^verbatim>\<open>backup\<close> and \<^verbatim>\<open>patch\<close> declare rollback
  scripts, \<^verbatim>\<open>verify\<close> does not. Its execution on node \<^verbatim>\<open>n1\<close> has completed \<^verbatim>\<open>backup\<close>
  and \<^verbatim>\<open>patch\<close> and failed \<^verbatim>\<open>verify\<close>, and is still marked running.
\<close>

definition patchSteps :: "step list" where
  "patchSteps =
     [(scriptStep ''backup'' ''make-backup'')
        \<lparr>s_onSuccess := Some ''patch'', s_rollbackScriptId := Some ''drop-backup''\<rparr>,
      (scriptStep ''patch'' ''install-patch'')
        \<lparr>s_onSuccess := Some ''verify'', s_rollbackScriptId := Some ''restore-backup''\<rparr>,
      scriptStep ''verify'' ''health-check'']"

definition patchWorkflow :: "bool \<Rightarrow> workflow" where
  "patchWorkflow rollback =
     (workflowOf patchSteps ''backup'')\<lparr>w_id := 1, w_rollbackEnabled := rollback\<rparr>"

definition patchExecution :: execution where
  "patchExecution =
     emptyExecution
       \<lparr>e_id := 7, e_workflowId := 1, e_nodeId := ''n1'', e_status := ''running'',
        e_currentStep := Some ''verify'',
        e_stepResults := [resultOf ''backup'' ''success'' 0, resultOf ''patch'' ''success'' 0,
                          resultOf ''verify'' ''failed'' 0]\<rparr>"

definition engineWith :: "workflow list \<Rightarrow> execution list \<Rightarrow> engine" where
  "engineWith ws es =
     \<lparr>db = \<lparr>workflows = ws, executions = es, jobs = [], quarantines = [], nextId = 100\<rparr>,
      activeExecutions = {}, quarantinedNodes = {}\<rparr>"

text \<open>The chain workflow, stored under identifier 1.\<close>

definition chainWorkflow :: workflow where
  "chainWorkflow = workflowOf chainABC ''A''"




definition freeSpaceCondition :: condition where
  "freeSpaceCondition =
     Condition (Some ''threshold'') JUndefined (Some ''lt'') None None None
       (Some ''metrics.free'') (JNum (Fin 10)) None None None"

definition exitCondition :: condition where
  "exitCondition =
     Condition (Some ''exitCode'') (JNum (Fin 0)) None None None None None JUndefined None
       None None"


text \<open>Surroundings in which the store answers and the cron library throws, and
  surroundings whose one window has an \<^verbatim>\<open>allowedPriorities\<close> that is not a list.\<close>

definition withoutCron :: "int \<Rightarrow> surroundings" where
  "withoutCron now =
     (healthyAt now)\<lparr>cronPrevious := (\<lambda>p z t. Inl ''cron.previous is not a function'')\<rparr>"

definition malformedWindowAt :: "int \<Rightarrow> surroundings" where
  "malformedWindowAt now =
     (healthyAt now)
       \<lparr>readWindows := Inr [nightlyWindow\<lparr>mw_allowedPriorities := JNum (Fin 1)\<rparr>]\<rparr>"

text \<open>Executions of workflow 1 as the store holds them: one running on node \<^verbatim>\<open>n1\<close>, a
  completed one and a running one on node \<^verbatim>\<open>n2\<close>, and one of another workflow running
  on \<^verbatim>\<open>n2\<close>.\<close>

definition executionOn :: "nat \<Rightarrow> nat \<Rightarrow> string \<Rightarrow> string \<Rightarrow> execution" where
  "executionOn i workflowId nodeId status =
     emptyExecution\<lparr>e_id := i, e_workflowId := workflowId, e_nodeId := nodeId,
                    e_status := status\<rparr>"

definition inFlight :: "execution list" where
  "inFlight =
     [executionOn 7 1 ''n1'' ''running'', executionOn 8 1 ''n2'' ''completed'',
      executionOn 9 1 ''n2'' ''running'', executionOn 10 2 ''n2'' ''running'']"


chapter \<open>Properties\<close>

section \<open>Retry decision and backoff\<close>

lemma retryCountOf_retried [simp]:
  "retryCountOf (retriedExecution n) (backoffStep kind base most) = n"
  by (simp add: retryCountOf_def retriedExecution_def backoffStep_def scriptStep_def
        emptyStep_def emptyExecution_def resultOf_def)

lemma retryCountOf_fresh [simp]:
  "retryCountOf emptyExecution st = 0"
  by (simp add: retryCountOf_def emptyExecution_def)

lemma backoffStep_policy [simp]:
  "maxAttemptsOf (backoffStep kind base most) = (if most = 0 then 3 else most)"
  "backoffTypeOf (backoffStep kind base most) = (if kind = [] then ''exponential'' else kind)"
  "baseDelayOf (backoffStep kind base most) = (if base = 0 then 60 else base)"
  by (simp_all add: maxAttemptsOf_def backoffTypeOf_def baseDelayOf_def policyOf_def
        backoffStep_def scriptStep_def emptyStep_def numOr_def strOr_def)

text \<open>
  Claim C7. For every execution and step, with \<open>n\<close> the retry count read from the step
  results, \<open>b\<close> the base delay and \<open>m\<close> the attempt ceiling of the step's policy: the
  delay never exceeds 3600 seconds; a retry is granted exactly when \<open>n < m\<close>; at the
  ceiling (\<open>n \<ge> m\<close>) the delay is \<open>0\<close>, not the backoff formula; below the ceiling it
  is \<open>min (b * 2 ^ n) 3600\<close> for exponential backoff, \<open>min (b * (n + 1)) 3600\<close> for
  linear backoff and \<open>min b 3600\<close> for any other backoff type.
\<close>

theorem C7_retry_delay:
  "delay (escalation_handleStepFailure ex st) \<le> 3600 \<and>
   (shouldRetry (escalation_handleStepFailure ex st)
      \<longleftrightarrow> int (retryCountOf ex st) < maxAttemptsOf st) \<and>
   (maxAttemptsOf st \<le> int (retryCountOf ex st) \<longrightarrow>
      delay (escalation_handleStepFailure ex st) = 0) \<and>
   (int (retryCountOf ex st) < maxAttemptsOf st \<longrightarrow>
      delay (escalation_handleStepFailure ex st)
        = (if backoffTypeOf st = ''exponential''
           then min (baseDelayOf st * 2 ^ retryCountOf ex st) 3600
           else if backoffTypeOf st = ''linear''
           then min (baseDelayOf st * (int (retryCountOf ex st) + 1)) 3600
           else min (baseDelayOf st) 3600))"
  by (simp add: escalation_handleStepFailure_def Let_def)

text \<open>
  The instances of the specification: exponential backoff with \<^verbatim>\<open>delaySeconds = 60\<close>
  at retry count 2 gives 240 (linear gives 180), and at retry count 40 under a ceiling
  of 100 attempts the delay is the cap. At retry count 3 under a ceiling of 3 no retry
  is granted and the delay is 0.
\<close>

theorem C7_retry_delay_witness:
  "delay (escalation_handleStepFailure (retriedExecution 2)
            (backoffStep ''exponential'' 60 0)) = 240 \<and>
   delay (escalation_handleStepFailure (retriedExecution 2)
            (backoffStep ''linear'' 60 0)) = 180 \<and>
   delay (escalation_handleStepFailure (retriedExecution 40)
            (backoffStep ''exponential'' 60 100)) = 3600 \<and>
   delay (escalation_handleStepFailure (retriedExecution 3)
            (backoffStep ''exponential'' 60 3)) = 0 \<and>
   \<not> shouldRetry (escalation_handleStepFailure (retriedExecution 3)
                    (backoffStep ''exponential'' 60 3))"
  using C7_retry_delay [of "retriedExecution 2" "backoffStep ''exponential'' 60 0"]
        C7_retry_delay [of "retriedExecution 2" "backoffStep ''linear'' 60 0"]
        C7_retry_delay [of "retriedExecution 40" "backoffStep ''exponential'' 60 100"]
        C7_retry_delay [of "retriedExecution 3" "backoffStep ''exponential'' 60 3"]
  by simp

text \<open>
  The formula of the claim does not hold for every retry count. With
  \<^verbatim>\<open>delaySeconds = 60\<close> and \<^verbatim>\<open>maxAttempts = 3\<close> at retry count 3 the formula gives 480
  and the code gives 0; at retry count 40 under the default ceiling of 3 the formula
  gives the cap 3600 and the code gives 0.
\<close>

theorem C7_retry_delay_counterexample:
  "retryCountOf (retriedExecution 3) (backoffStep ''exponential'' 60 3) = 3 \<and>
   baseDelayOf (backoffStep ''exponential'' 60 3) = 60 \<and>
   backoffTypeOf (backoffStep ''exponential'' 60 3) = ''exponential'' \<and>
   min (60 * 2 ^ 3) 3600 = (480 :: int) \<and>
   delay (escalation_handleStepFailure (retriedExecution 3)
            (backoffStep ''exponential'' 60 3)) = 0 \<and>
   delay (escalation_handleStepFailure (retriedExecution 3)
            (backoffStep ''exponential'' 60 3))
     \<noteq> min (baseDelayOf (backoffStep ''exponential'' 60 3)
              * 2 ^ retryCountOf (retriedExecution 3) (backoffStep ''exponential'' 60 3)) 3600 \<and>
   min (60 * 2 ^ 40) 3600 = (3600 :: int) \<and>
   delay (escalation_handleStepFailure (retriedExecution 40)
            (backoffStep ''exponential'' 60 0)) = 0"
  by (simp add: escalation_handleStepFailure_def Let_def)

section \<open>The retry loop of the engine\<close>

text \<open>
  The retry decision reads the execution's step results, and nothing between two runs
  of a step writes to them: \<^verbatim>\<open>handleStepFailure\<close> computes the next retry count into a
  local constant and drops it. So a decision to retry is repeated for as long as the
  step keeps throwing.
\<close>

lemma always_throwing_never_returns:
  "shouldRetry (escalation_handleStepFailure ex st) \<Longrightarrow>
   (\<And>j. \<exists>msg. runStep env j st = Throws msg) \<Longrightarrow>
   executeStep n env k ex st = None"
proof (induction n arbitrary: k)
  case 0
  then show ?case by simp
next
  case (Suc n)
  from Suc.prems(2) obtain msg where "runStep env k st = Throws msg" by blast
  with Suc show ?case by simp
qed

lemma fresh_step_is_retried:
  "shouldRetry (escalation_handleStepFailure emptyExecution (backoffStep ''exponential'' 60 3))"
  by (simp add: escalation_handleStepFailure_def Let_def)

lemma runStep_script:
  "runStep env k (backoffStep kind base most) = env k"
  by (simp add: runStep_def backoffStep_def scriptStep_def emptyStep_def stepTypes_def)

text \<open>
  Claim C1, evaluated on the code. A script step with \<^verbatim>\<open>maxAttempts = 3\<close> runs in
  an execution that has no result for it yet. If every run throws (the job never
  completes), no bound on the number of runs lets \<^verbatim>\<open>executeStep\<close> return; if the
  first ten runs throw and the eleventh succeeds, the step is run eleven times.
\<close>

theorem C1_retry_loop_unbounded:
  "(\<forall>n. executeStep n (\<lambda>k. Throws ''Job timed out'') 0 emptyExecution
           (backoffStep ''exponential'' 60 3) = None) \<and>
   executeStep 11 (\<lambda>k. if k < 10 then Throws ''Job timed out'' else Completes succeeded) 0
      emptyExecution (backoffStep ''exponential'' 60 3) = Some (succeeded, 11)"
proof
  show "\<forall>n. executeStep n (\<lambda>k. Throws ''Job timed out'') 0 emptyExecution
           (backoffStep ''exponential'' 60 3) = None"
    using always_throwing_never_returns [OF fresh_step_is_retried]
    by (simp add: runStep_script)
next
  have eleven: "(11::nat) = Suc (Suc (Suc (Suc (Suc (Suc (Suc (Suc (Suc (Suc (Suc 0))))))))))"
    by simp
  show "executeStep 11 (\<lambda>k. if k < 10 then Throws ''Job timed out'' else Completes succeeded) 0
      emptyExecution (backoffStep ''exponential'' 60 3) = Some (succeeded, 11)"
    unfolding eleven
    using fresh_step_is_retried by (simp add: runStep_script)
qed

section \<open>Priority weights\<close>

lemma getPriorityValue_table:
  "getPriorityValue ''high'' = JNum (Fin 1)"
  "getPriorityValue ''low'' = JNum (Fin 3)"
  "getPriorityValue ''critical'' = JNum (Fin 2)"
  "getPriorityValue ''normal'' = JNum (Fin 2)"
  by (simp_all add: getPriorityValue_def objectGet_def priorities_def jsOr_def)

text \<open>Outside the table, and outside the names every object inherits, the default applies.\<close>

lemma getPriorityValue_unknown:
  "p \<notin> set [''critical'', ''high'', ''normal'', ''low''] \<Longrightarrow>
   p \<notin> set objectPrototypeNames \<Longrightarrow>
   getPriorityValue p = JNum (Fin 2)"
  by (simp add: getPriorityValue_def objectGet_def priorities_def jsOr_def)

text \<open>A queued critical schedule gets the weight of a queued normal one, and so does
  not overtake it; a high one does.\<close>

lemma queued_weight_critical_normal:
  "queueScheduleForLater h now i (Some ''critical'') []
     = [\<lparr>q_scheduleId = i, q_priority = JNum (Fin 3), q_queuedAt = now\<rparr>]"
  "queueScheduleForLater h now i (Some ''normal'') []
     = [\<lparr>q_scheduleId = i, q_priority = JNum (Fin 3), q_queuedAt = now\<rparr>]"
  by (simp_all add: queueScheduleForLater_def sortQueue_def idText_def
        getPriorityValue_table jsPlus_def isTextual_def)

lemma queued_critical_behind_normal:
  "map q_scheduleId
     (queueScheduleForLater h 2 20 (Some ''critical'')
        (queueScheduleForLater h 1 10 (Some ''normal'') [])) = [10, 20]"
  "map q_scheduleId
     (queueScheduleForLater h 2 20 (Some ''high'')
        (queueScheduleForLater h 1 10 (Some ''normal'') [])) = [20, 10]"
  by (simp_all add: queueScheduleForLater_def sortQueue_def idText_def
        getPriorityValue_table jsPlus_def isTextual_def comparesBefore_def numSub_def)

text \<open>
  Claim C10, evaluated on the code at a priority that names an inherited member. The
  lookup finds \<^verbatim>\<open>Object.prototype.toString\<close>, which is truthy, so the default does not
  apply: the function is returned, and the queue stores its text followed by \<^verbatim>\<open>1\<close>.
\<close>

theorem C10_inherited_priority_name:
  "getPriorityValue ''toString'' = JBuiltin ''toString'' \<and>
   getPriorityValue ''toString'' \<noteq> JNum (Fin 2) \<and>
   (\<forall>h now i. map q_priority (queueScheduleForLater h now i (Some ''toString'') [])
        = [JStr (builtinText h ''toString'' @ numToString h (Fin 1))])"
  by (simp add: getPriorityValue_def objectGet_def priorities_def jsOr_def
        objectPrototypeNames_def queueScheduleForLater_def sortQueue_def idText_def
        jsPlus_def isTextual_def)

section \<open>Cycle detection in workflow validation\<close>

text \<open>
  The search is complete: if the graph of the step map has a cycle, an error is
  recorded. The invariant is about the nodes the search has left. As long as no error
  is recorded, every edge from such a node leads to such a node and none of them lies
  on a cycle; a node is left only after all its targets were, and a target still on
  the stack records an error.
\<close>

lemma settled_reach:
  assumes "settled E B" "(x, y) \<in> E\<^sup>*" "x \<in> B"
  shows "y \<in> B"
  using assms(2,3,1)
  by (induction rule: rtrancl_induct) (auto simp: settled_def)

lemma settled_insert:
  assumes B: "settled E B" and succ: "\<And>y. (v, y) \<in> E \<Longrightarrow> y \<in> B" and v: "v \<notin> B"
  shows "settled E (insert v B)"
proof -
  have "(v, v) \<notin> E\<^sup>+"
  proof
    assume "(v, v) \<in> E\<^sup>+"
    then obtain y where "(v, y) \<in> E" "(y, v) \<in> E\<^sup>*"
      by (meson tranclD)
    then have "v \<in> B" using settled_reach [OF B] succ by blast
    with v show False by simp
  qed
  with B succ show ?thesis by (auto simp: settled_def)
qed

lemma settled_empty: "settled E {}"
  by (simp add: settled_def)

lemma transitions_nonempty: "t \<in> set (transitions st) \<Longrightarrow> t \<noteq> []"
  by (auto simp: transitions_def present_def idText_def split: option.splits if_splits)

lemma edgesOf_iff:
  "(a, b) \<in> edgesOf m \<longleftrightarrow> (\<exists>st. m (Some a) = Some st \<and> b \<in> set (transitions st))"
  by (simp add: edgesOf_def)

lemma found_grows:
  "detectCycle n m x p s = Some (r, s') \<Longrightarrow> found s' = [] \<Longrightarrow> found s = []"
  "descend n m ts p s = Some s' \<Longrightarrow> found s' = [] \<Longrightarrow> found s = []"
proof (induction n m x p s and n m ts p s arbitrary: r s' and s' rule: detectCycle_descend.induct)
  case (1 stepMap stepId path s)
  then show ?case by simp
next
  case (2 n stepMap stepId path s)
  show ?case
  proof (cases stepId)
    case None
    with "2.prems" show ?thesis by simp
  next
    case (Some v)
    show ?thesis
    proof (cases "v = [] \<or> v \<in> recursionStack s \<or> v \<in> visited s")
      case True
      with "2.prems" Some show ?thesis
        by (auto split: if_splits)
    next
      case False
      then have v: "v \<noteq> []" "v \<notin> recursionStack s" "v \<notin> visited s" by auto
      define s1 where "s1 = s\<lparr>visited := insert v (visited s),
                       recursionStack := insert v (recursionStack s)\<rparr>"
      show ?thesis
      proof (cases "stepMap (Some v)")
        case None
        then have "found s' = found s"
          using "2.prems"(1) Some v by (auto simp: Let_def)
        then show ?thesis using "2.prems"(2) by simp
      next
        case (Some st)
        from "2.prems"(1) \<open>stepId = Some v\<close> v Some
        obtain s2 where d: "descend n stepMap (transitions st) (path @ [v]) s1 = Some s2"
          and s': "s' = s2\<lparr>recursionStack := recursionStack s2 - {v}\<rparr>"
          by (auto simp: s1_def Let_def split: option.splits)
        have "found s2 = []" using "2.prems"(2) s' by simp
        from "2.IH" [OF \<open>stepId = Some v\<close> _ _ _ s1_def Some d this] v
        show ?thesis by (simp add: s1_def)
      qed
    qed
  qed
next
  case (3 n stepMap path s)
  then show ?case by simp
next
  case (4 n stepMap t ts path s)
  from "4.prems"(1) obtain r1 s1 where
    d1: "detectCycle n stepMap (Some t) path s = Some (r1, s1)"
    and d2: "descend n stepMap ts path s1 = Some s'"
    by (auto split: option.splits)
  from "4.IH"(2) [OF d1 refl d2 "4.prems"(2)] have "found s1 = []" .
  from "4.IH"(1) [OF d1 this] show ?case .
qed

lemma search_invariant:
  shows "detectCycle n m x p s = Some (r, s') \<Longrightarrow> found s' = [] \<Longrightarrow> settled (edgesOf m) (finished s) \<Longrightarrow>
           recursionStack s' = recursionStack s \<and> visited s \<subseteq> visited s'
           \<and> settled (edgesOf m) (finished s') \<and> (\<forall>v. x = Some v \<and> v \<noteq> [] \<longrightarrow> v \<in> finished s')"
    and "descend n m ts p s = Some s' \<Longrightarrow> found s' = [] \<Longrightarrow> settled (edgesOf m) (finished s) \<Longrightarrow>
           (\<forall>t\<in>set ts. t \<noteq> []) \<Longrightarrow>
           recursionStack s' = recursionStack s \<and> visited s \<subseteq> visited s'
           \<and> settled (edgesOf m) (finished s') \<and> set ts \<subseteq> finished s'"
proof (induction n m x p s and n m ts p s arbitrary: r s' and s' rule: detectCycle_descend.induct)
  case (1 stepMap stepId path s)
  then show ?case by simp
next
  case (2 n stepMap stepId path s)
  show ?case
  proof (cases stepId)
    case None
    with "2.prems" show ?thesis by simp
  next
    case (Some v)
    show ?thesis
    proof (cases "v = [] \<or> v \<in> recursionStack s \<or> v \<in> visited s")
      case True
      with "2.prems" Some show ?thesis
        by (auto simp: finished_def split: if_splits)
    next
      case False
      then have v: "v \<noteq> []" "v \<notin> recursionStack s" "v \<notin> visited s" by auto
      define s1 where "s1 = s\<lparr>visited := insert v (visited s),
                       recursionStack := insert v (recursionStack s)\<rparr>"
      have fin1: "finished s1 = finished s" using v by (auto simp: finished_def s1_def)
      show ?thesis
      proof (cases "stepMap (Some v)")
        case None
        then have s': "visited s' = insert v (visited s)" "recursionStack s' = recursionStack s"
          using "2.prems"(1) Some v by (auto simp: Let_def)
        have noedge: "\<And>y. (v, y) \<notin> edgesOf stepMap" using None by (simp add: edgesOf_iff)
        have fin': "finished s' = insert v (finished s)"
          using v by (auto simp: s' finished_def)
        have "v \<notin> finished s" using v by (simp add: finished_def)
        then have "settled (edgesOf stepMap) (finished s')"
          unfolding fin' using noedge "2.prems"(3) by (intro settled_insert) auto
        then show ?thesis using v Some
          by (auto simp: s' fin')
      next
        case (Some st)
        note st = this
        from "2.prems"(1) \<open>stepId = Some v\<close> v st
        obtain s2 where d: "descend n stepMap (transitions st) (path @ [v]) s1 = Some s2"
          and s': "s' = s2\<lparr>recursionStack := recursionStack s2 - {v}\<rparr>"
          by (auto simp: s1_def Let_def split: option.splits)
        have f2: "found s2 = []" using "2.prems"(2) s' by simp
        have "recursionStack s2 = recursionStack s1 \<and> visited s1 \<subseteq> visited s2
           \<and> settled (edgesOf stepMap) (finished s2) \<and> set (transitions st) \<subseteq> finished s2"
          using "2.IH" [OF \<open>stepId = Some v\<close> _ _ _ s1_def st d f2] v fin1 "2.prems"(3)
            transitions_nonempty [of _ st]
          by auto
        then have b: "recursionStack s2 = recursionStack s1"
          and c: "visited s1 \<subseteq> visited s2" and e: "settled (edgesOf stepMap) (finished s2)"
          and g: "set (transitions st) \<subseteq> finished s2" by auto
        have vis': "visited s' = visited s2" and stack': "recursionStack s' = recursionStack s"
          using s' b v by (auto simp: s1_def)
        have c': "visited s \<subseteq> visited s2" "v \<in> visited s2"
          using c by (auto simp: s1_def)
        have fin': "finished s' = insert v (finished s2)"
          using v b c' by (auto simp: vis' stack' s1_def finished_def)
        have vn: "v \<notin> finished s2" using b by (simp add: finished_def s1_def)
        have succ: "\<And>y. (v, y) \<in> edgesOf stepMap \<Longrightarrow> y \<in> finished s2"
          using st g by (auto simp: edgesOf_iff)
        have "settled (edgesOf stepMap) (finished s')"
          unfolding fin' using e succ vn by (intro settled_insert) auto
        then show ?thesis using stack' vis' c' fin' \<open>stepId = Some v\<close>
          by auto
      qed
    qed
  qed
next
  case (3 n stepMap path s)
  then show ?case by simp
next
  case (4 n stepMap t ts path s)
  from "4.prems"(1) obtain r1 s1 where
    d1: "detectCycle n stepMap (Some t) path s = Some (r1, s1)"
    and d2: "descend n stepMap ts path s1 = Some s'"
    by (auto split: option.splits)
  have f1: "found s1 = []"
    using found_grows(2) [OF d2 "4.prems"(2)] .
  have hd: "recursionStack s1 = recursionStack s \<and> visited s \<subseteq> visited s1
           \<and> settled (edgesOf stepMap) (finished s1) \<and> t \<in> finished s1"
    using "4.IH"(1) [OF d1 f1 "4.prems"(3)] "4.prems"(4) by simp
  have tl: "recursionStack s' = recursionStack s1 \<and> visited s1 \<subseteq> visited s'
           \<and> settled (edgesOf stepMap) (finished s') \<and> set ts \<subseteq> finished s'"
    using "4.IH"(2) [OF d1 refl d2 "4.prems"(2)] hd "4.prems"(4) by simp
  have "t \<in> finished s'"
    using hd tl by (auto simp: finished_def)
  with hd tl show ?case by auto
qed

lemma unvisitedLoop_found_grows:
  "unvisitedLoop n m steps s = Some s' \<Longrightarrow> found s' = [] \<Longrightarrow> found s = []"
proof (induction steps arbitrary: s)
  case Nil
  then show ?case by simp
next
  case (Cons st rest)
  then show ?case
    by (auto split: option.splits if_splits dest: found_grows(1))
qed

lemma unvisitedLoop_invariant:
  shows "unvisitedLoop n m steps s = Some s' \<Longrightarrow> found s' = [] \<Longrightarrow> settled (edgesOf m) (finished s) \<Longrightarrow>
           recursionStack s' = recursionStack s \<and> visited s \<subseteq> visited s'
           \<and> settled (edgesOf m) (finished s')
           \<and> (\<forall>st\<in>set steps. \<forall>v. s_id st = Some v \<and> v \<noteq> [] \<longrightarrow> v \<in> visited s')"
proof (induction steps arbitrary: s)
  case Nil
  then show ?case by simp
next
  case (Cons st rest)
  show ?case
  proof (cases "case s_id st of None \<Rightarrow> False | Some v \<Rightarrow> v \<in> visited s")
    case True
    with Cons.prems have "unvisitedLoop n m rest s = Some s'" by simp
    from Cons.IH [OF this Cons.prems(2,3)] True show ?thesis
      by (auto split: option.splits)
  next
    case False
    with Cons.prems(1) obtain r1 s1 where
      d1: "detectCycle n m (s_id st) [] s = Some (r1, s1)"
      and d2: "unvisitedLoop n m rest s1 = Some s'"
      by (auto split: option.splits)
    have tl0: "found s1 = []"
      using unvisitedLoop_found_grows [OF d2 Cons.prems(2)] .
    have hd: "recursionStack s1 = recursionStack s \<and> visited s \<subseteq> visited s1
           \<and> settled (edgesOf m) (finished s1) \<and> (\<forall>v. s_id st = Some v \<and> v \<noteq> [] \<longrightarrow> v \<in> finished s1)"
      using search_invariant(1) [OF d1 tl0 Cons.prems(3)] .
    have tl: "recursionStack s' = recursionStack s1 \<and> visited s1 \<subseteq> visited s'
           \<and> settled (edgesOf m) (finished s')
           \<and> (\<forall>st\<in>set rest. \<forall>v. s_id st = Some v \<and> v \<noteq> [] \<longrightarrow> v \<in> visited s')"
      using Cons.IH [OF d2 Cons.prems(2)] hd by simp
    show ?thesis using hd tl by (auto simp: finished_def)
  qed
qed

lemma cycle_is_found:
  assumes "searchAll n steps start = Some s" "cyclic steps"
  shows "found s \<noteq> []"
proof
  assume nil: "found s = []"
  let ?m = "stepMapOf steps"
  let ?E = "edgesOf (stepMapOf steps)"
  let ?s0 = "\<lparr>visited = {}, recursionStack = {}, found = []\<rparr>"
  have E: "\<And>a b. (a, b) \<in> ?E \<longleftrightarrow> (\<exists>st. ?m (Some a) = Some st \<and> b \<in> set (transitions st))"
    by (simp add: edgesOf_def)
  have s0: "settled ?E (finished ?s0)" "recursionStack ?s0 = {}"
    by (simp_all add: finished_def settled_empty)
  from assms(1) obtain s1 where
    a: "(if present start then map_option snd (detectCycle n ?m start [] ?s0) else Some ?s0)
          = Some s1"
    and b: "unvisitedLoop n ?m steps s1 = Some s"
    by (auto simp: searchAll_def Let_def split: option.splits)
  have f1: "found s1 = []"
    using unvisitedLoop_found_grows [OF b nil] .
  have s1: "settled ?E (finished s1) \<and> recursionStack s1 = {}"
  proof (cases "present start")
    case True
    with a obtain r where "detectCycle n ?m start [] ?s0 = Some (r, s1)" by auto
    from search_invariant(1) [OF this f1 s0(1)] s0(2) show ?thesis by simp
  next
    case False
    with a s0 show ?thesis by auto
  qed
  from unvisitedLoop_invariant [OF b nil] s1
  have fin: "settled ?E (finished s)" and stack: "recursionStack s = {}"
    and all: "\<forall>st\<in>set steps. \<forall>v. s_id st = Some v \<and> v \<noteq> [] \<longrightarrow> v \<in> visited s"
    by auto
  from assms(2) obtain v where v: "(v, v) \<in> ?E\<^sup>+" by (auto simp: cyclic_def)
  then obtain y where "(v, y) \<in> ?E" by (meson tranclD)
  then obtain st where st: "?m (Some v) = Some st" using E by auto
  from v obtain u where "(u, v) \<in> ?E" by (meson tranclD2)
  then have "v \<noteq> []" using E transitions_nonempty by auto
  from st have "(Some v, st) \<in> set (map (\<lambda>st. (s_id st, st)) steps)"
    unfolding stepMapOf_def by (auto dest: map_of_SomeD)
  then have "st \<in> set steps" "s_id st = Some v" by auto
  with all \<open>v \<noteq> []\<close> have "v \<in> visited s" by auto
  then have "v \<in> finished s" using stack by (simp add: finished_def)
  with fin v show False by (auto simp: settled_def)
qed


lemma stack_kept:
  "detectCycle n m x p s = Some (r, s') \<Longrightarrow> recursionStack s' = recursionStack s"
  "descend n m ts p s = Some s' \<Longrightarrow> recursionStack s' = recursionStack s"
proof (induction n m x p s and n m ts p s arbitrary: r s' and s' rule: detectCycle_descend.induct)
  case (1 stepMap stepId path s)
  then show ?case by simp
next
  case (2 n stepMap stepId path s)
  show ?case
  proof (cases stepId)
    case None
    with "2.prems" show ?thesis by simp
  next
    case (Some v)
    show ?thesis
    proof (cases "v = [] \<or> v \<in> recursionStack s \<or> v \<in> visited s")
      case True
      with "2.prems" Some show ?thesis
        by (auto split: if_splits)
    next
      case False
      then have v: "v \<noteq> []" "v \<notin> recursionStack s" "v \<notin> visited s" by auto
      define s1 where "s1 = s\<lparr>visited := insert v (visited s),
                       recursionStack := insert v (recursionStack s)\<rparr>"
      show ?thesis
      proof (cases "stepMap (Some v)")
        case None
        then show ?thesis
          using "2.prems"(1) Some v by (auto simp: Let_def)
      next
        case (Some st)
        from "2.prems"(1) \<open>stepId = Some v\<close> v Some
        obtain s2 where d: "descend n stepMap (transitions st) (path @ [v]) s1 = Some s2"
          and s': "s' = s2\<lparr>recursionStack := recursionStack s2 - {v}\<rparr>"
          by (auto simp: s1_def Let_def split: option.splits)
        from "2.IH" [OF \<open>stepId = Some v\<close> _ _ _ s1_def Some d] v
        have "recursionStack s2 = insert v (recursionStack s)" by (simp add: s1_def)
        then show ?thesis using s' v by auto
      qed
    qed
  qed
next
  case (3 n stepMap path s)
  then show ?case by simp
next
  case (4 n stepMap t ts path s)
  from "4.prems"(1) obtain r1 s1 where
    d1: "detectCycle n stepMap (Some t) path s = Some (r1, s1)"
    and d2: "descend n stepMap ts path s1 = Some s'"
    by (auto split: option.splits)
  from "4.IH"(2) [OF d1 refl d2] "4.IH"(1) [OF d1] show ?case by simp
qed

lemma enough_depth:
  "finite (mapped m) \<Longrightarrow> card (mapped m - recursionStack s) < n \<Longrightarrow>
     \<exists>r s'. detectCycle n m x p s = Some (r, s')"
  "finite (mapped m) \<Longrightarrow> card (mapped m - recursionStack s) < n \<Longrightarrow>
     \<exists>s'. descend n m ts p s = Some s'"
proof (induction n m x p s and n m ts p s rule: detectCycle_descend.induct)
  case (1 stepMap stepId path s)
  then show ?case by simp
next
  case (2 n stepMap stepId path s)
  show ?case
  proof (cases stepId)
    case None
    then show ?thesis by auto
  next
    case (Some v)
    show ?thesis
    proof (cases "v = [] \<or> v \<in> recursionStack s \<or> v \<in> visited s")
      case True
      with Some show ?thesis by auto
    next
      case False
      then have v: "v \<noteq> []" "v \<notin> recursionStack s" "v \<notin> visited s" by auto
      define s1 where "s1 = s\<lparr>visited := insert v (visited s),
                       recursionStack := insert v (recursionStack s)\<rparr>"
      show ?thesis
      proof (cases "stepMap (Some v)")
        case None
        then show ?thesis using Some v by (auto simp: Let_def)
      next
        case (Some st)
        have "v \<in> mapped stepMap - recursionStack s"
          using Some v by (simp add: mapped_def)
        then have "card (mapped stepMap - recursionStack s1)
                     < card (mapped stepMap - recursionStack s)"
          using "2.prems"(1)
          by (intro psubset_card_mono) (auto simp: s1_def)
        then have "card (mapped stepMap - recursionStack s1) < n"
          using "2.prems"(2) by simp
        from "2.IH" [OF \<open>stepId = Some v\<close> _ _ _ s1_def Some "2.prems"(1) this] v
        obtain s2 where "descend n stepMap (transitions st) (path @ [v]) s1 = Some s2"
          by auto
        then show ?thesis using \<open>stepId = Some v\<close> v Some
          by (auto simp: s1_def Let_def)
      qed
    qed
  qed
next
  case (3 n stepMap path s)
  then show ?case by simp
next
  case (4 n stepMap t ts path s)
  from "4.IH"(1) [OF "4.prems"] obtain r1 s1 where
    d1: "detectCycle n stepMap (Some t) path s = Some (r1, s1)" by blast
  have "recursionStack s1 = recursionStack s" using stack_kept(1) [OF d1] .
  with "4.IH"(2) [OF d1 refl "4.prems"(1)] "4.prems"(2)
  obtain s' where "descend n stepMap ts path s1 = Some s'" by auto
  with d1 show ?case by simp
qed

lemma unvisitedLoop_returns:
  "finite (mapped m) \<Longrightarrow> card (mapped m - recursionStack s) < n \<Longrightarrow>
     \<exists>s'. unvisitedLoop n m steps s = Some s'"
proof (induction steps arbitrary: s)
  case Nil
  then show ?case by simp
next
  case (Cons st rest)
  show ?case
  proof (cases "case s_id st of None \<Rightarrow> False | Some v \<Rightarrow> v \<in> visited s")
    case True
    with Cons show ?thesis by simp
  next
    case False
    from enough_depth(1) [OF Cons.prems] obtain r1 s1 where
      d1: "detectCycle n m (s_id st) [] s = Some (r1, s1)" by blast
    have "recursionStack s1 = recursionStack s" using stack_kept(1) [OF d1] .
    with Cons.IH [OF Cons.prems(1), of s1] Cons.prems(2)
    obtain s' where "unvisitedLoop n m rest s1 = Some s'" by auto
    with d1 False show ?thesis by simp
  qed
qed

lemma mapped_stepMapOf:
  "finite (mapped (stepMapOf steps))" "card (mapped (stepMapOf steps)) \<le> length steps"
proof -
  let ?D = "mapped (stepMapOf steps)"
  have sub: "Some ` ?D \<subseteq> set (map s_id steps)"
    by (auto simp: mapped_def stepMapOf_def dest!: map_of_SomeD)
  have fin: "finite (Some ` ?D)" using sub by (rule finite_subset) simp
  then show "finite ?D" by (rule finite_imageD) simp
  have "card ?D = card (Some ` ?D)" by (simp add: card_image)
  also have "\<dots> \<le> card (set (map s_id steps))" using sub by (intro card_mono) auto
  also have "\<dots> \<le> length steps" using card_length [of "map s_id steps"] by simp
  finally show "card ?D \<le> length steps" .
qed

lemma searchAll_returns:
  "length steps < n \<Longrightarrow> \<exists>s. searchAll n steps start = Some s"
proof -
  assume n: "length steps < n"
  let ?m = "stepMapOf steps"
  let ?s0 = "\<lparr>visited = {}, recursionStack = {}, found = []\<rparr>"
  have c: "card (mapped ?m - recursionStack ?s0) < n"
    using mapped_stepMapOf(2) [of steps] n by simp
  show ?thesis
  proof (cases "present start")
    case True
    from enough_depth(1) [OF mapped_stepMapOf(1) c] obtain r1 s1 where
      d1: "detectCycle n ?m start [] ?s0 = Some (r1, s1)" by blast
    have "recursionStack s1 = {}" using stack_kept(1) [OF d1] by simp
    with unvisitedLoop_returns [OF mapped_stepMapOf(1), of steps s1 n steps] c
    obtain s where "unvisitedLoop n ?m steps s1 = Some s" by auto
    with d1 True show ?thesis by (simp add: searchAll_def)
  next
    case False
    from unvisitedLoop_returns [OF mapped_stepMapOf(1) c]
    obtain s where "unvisitedLoop n ?m steps ?s0 = Some s" by blast
    with False show ?thesis by (simp add: searchAll_def)
  qed
qed

lemma checkCircularDependencies_returns:
  "\<exists>c. checkCircularDependencies steps start = Some c"
  using searchAll_returns [of steps "Suc (length steps)" start]
  by (auto simp: checkCircularDependencies_def)

lemma startsWith_append [simp]: "startsWith (p @ s) p"
  by (induction p) auto

lemma found_are_circular:
  "detectCycle n m x p s = Some (r, s') \<Longrightarrow> \<forall>e\<in>set (found s). circular e \<Longrightarrow>
     \<forall>e\<in>set (found s'). circular e"
  "descend n m ts p s = Some s' \<Longrightarrow> \<forall>e\<in>set (found s). circular e \<Longrightarrow>
     \<forall>e\<in>set (found s'). circular e"
proof (induction n m x p s and n m ts p s arbitrary: r s' and s' rule: detectCycle_descend.induct)
  case (1 stepMap stepId path s)
  then show ?case by simp
next
  case (2 n stepMap stepId path s)
  show ?case
  proof (cases stepId)
    case None
    with "2.prems" show ?thesis by simp
  next
    case (Some v)
    show ?thesis
    proof (cases "v = [] \<or> v \<in> recursionStack s \<or> v \<in> visited s")
      case True
      with "2.prems" Some show ?thesis
        by (auto simp: circular_def split: if_splits)
    next
      case False
      then have v: "v \<noteq> []" "v \<notin> recursionStack s" "v \<notin> visited s" by auto
      define s1 where "s1 = s\<lparr>visited := insert v (visited s),
                       recursionStack := insert v (recursionStack s)\<rparr>"
      show ?thesis
      proof (cases "stepMap (Some v)")
        case None
        then have "found s' = found s"
          using "2.prems"(1) Some v by (auto simp: Let_def)
        then show ?thesis using "2.prems"(2) by simp
      next
        case (Some st)
        from "2.prems"(1) \<open>stepId = Some v\<close> v Some
        obtain s2 where d: "descend n stepMap (transitions st) (path @ [v]) s1 = Some s2"
          and s': "s' = s2\<lparr>recursionStack := recursionStack s2 - {v}\<rparr>"
          by (auto simp: s1_def Let_def split: option.splits)
        have "\<forall>e\<in>set (found s1). circular e" using "2.prems"(2) by (simp add: s1_def)
        from "2.IH" [OF \<open>stepId = Some v\<close> _ _ _ s1_def Some d this] v
        show ?thesis by (simp add: s')
      qed
    qed
  qed
next
  case (3 n stepMap path s)
  then show ?case by simp
next
  case (4 n stepMap t ts path s)
  from "4.prems"(1) obtain r1 s1 where
    d1: "detectCycle n stepMap (Some t) path s = Some (r1, s1)"
    and d2: "descend n stepMap ts path s1 = Some s'"
    by (auto split: option.splits)
  from "4.IH"(2) [OF d1 refl d2 "4.IH"(1) [OF d1 "4.prems"(2)]] show ?case .
qed

lemma unvisitedLoop_circular:
  "unvisitedLoop n m steps s = Some s' \<Longrightarrow> \<forall>e\<in>set (found s). circular e \<Longrightarrow>
     \<forall>e\<in>set (found s'). circular e"
proof (induction steps arbitrary: s)
  case Nil
  then show ?case by simp
next
  case (Cons st rest)
  show ?case
  proof (cases "case s_id st of None \<Rightarrow> False | Some v \<Rightarrow> v \<in> visited s")
    case True
    with Cons show ?thesis by simp
  next
    case False
    with Cons.prems(1) obtain r1 s1 where
      d1: "detectCycle n m (s_id st) [] s = Some (r1, s1)"
      and d2: "unvisitedLoop n m rest s1 = Some s'"
      by (auto split: option.splits)
    from Cons.IH [OF d2 found_are_circular(1) [OF d1 Cons.prems(2)]] show ?thesis .
  qed
qed

lemma searchAll_circular:
  assumes "searchAll n steps start = Some s"
  shows "\<forall>e\<in>set (found s). circular e"
proof -
  let ?m = "stepMapOf steps"
  let ?s0 = "\<lparr>visited = {}, recursionStack = {}, found = []\<rparr>"
  from assms obtain s1 where
    a: "(if present start then map_option snd (detectCycle n ?m start [] ?s0) else Some ?s0)
          = Some s1"
    and b: "unvisitedLoop n ?m steps s1 = Some s"
    by (auto simp: searchAll_def Let_def split: option.splits)
  have "\<forall>e\<in>set (found s1). circular e"
  proof (cases "present start")
    case True
    with a obtain r where "detectCycle n ?m start [] ?s0 = Some (r, s1)" by auto
    from found_are_circular(1) [OF this] show ?thesis by simp
  next
    case False
    with a show ?thesis by auto
  qed
  from unvisitedLoop_circular [OF b this] show ?thesis .
qed

lemma cyclic_reported:
  assumes "cyclic steps"
  shows "\<exists>c. checkCircularDependencies steps start = Some c \<and> \<not> valid c
             \<and> errors c \<noteq> [] \<and> (\<forall>e\<in>set (errors c). circular e)"
proof -
  from searchAll_returns [of steps "Suc (length steps)" start]
  obtain s where s: "searchAll (Suc (length steps)) steps start = Some s" by auto
  from cycle_is_found [OF s assms] searchAll_circular [OF s] s
  show ?thesis by (simp add: checkCircularDependencies_def)
qed

lemma cyclic_nonempty: "cyclic steps \<Longrightarrow> steps \<noteq> []"
  by (auto simp: cyclic_def edgesOf_def stepMapOf_def dest!: tranclD)

lemma validateWorkflow_checked:
  "w_steps w = Some steps \<Longrightarrow> steps \<noteq> [] \<Longrightarrow>
   checkCircularDependencies steps (w_startStep w) = Some c \<Longrightarrow>
   validateWorkflow h w
     = Some \<lparr>valid = (structuralErrors h w steps = [] \<and> (valid c \<or> errors c = [])),
             errors = structuralErrors h w steps @ (if \<not> valid c then errors c else [])\<rparr>"
  by (simp add: validateWorkflow_def Let_def)

lemma cyclic_fails_validation:
  assumes "cyclic steps" "w_steps w = Some steps"
  shows "\<exists>v. validateWorkflow h w = Some v \<and> \<not> valid v \<and> (\<exists>e\<in>set (errors v). circular e)"
proof -
  from cyclic_reported [OF assms(1), of "w_startStep w"] obtain c where
    c: "checkCircularDependencies steps (w_startStep w) = Some c" "\<not> valid c"
       "errors c \<noteq> []" "\<forall>e\<in>set (errors c). circular e" by blast
  then obtain e where e: "e \<in> set (errors c)" "circular e" by (cases "errors c") auto
  have "validateWorkflow h w
     = Some \<lparr>valid = (structuralErrors h w steps = [] \<and> (valid c \<or> errors c = [])),
             errors = structuralErrors h w steps @ (if \<not> valid c then errors c else [])\<rparr>"
    using validateWorkflow_checked [OF assms(2) cyclic_nonempty [OF assms(1)] c(1)] .
  with c(2,3) e show ?thesis by auto
qed

lemma validateWorkflow_returns: "\<exists>v. validateWorkflow h w = Some v"
proof (cases "w_steps w")
  case None
  then show ?thesis by (simp add: validateWorkflow_def)
next
  case (Some steps)
  from checkCircularDependencies_returns [of steps "w_startStep w"] obtain c where
    "checkCircularDependencies steps (w_startStep w) = Some c" by blast
  with Some show ?thesis by (simp add: validateWorkflow_def Let_def)
qed


text \<open>Every transition the engine follows from a step is an edge of the searched
  graph, when the step ids are distinct (otherwise validation fails on that).\<close>

lemma stepMapOf_find:
  "distinct (map s_id steps) \<Longrightarrow> find (\<lambda>st. s_id st = Some a) steps = Some st \<Longrightarrow>
   stepMapOf steps (Some a) = Some st"
proof -
  assume d: "distinct (map s_id steps)" and f: "find (\<lambda>st. s_id st = Some a) steps = Some st"
  from f have "st \<in> set steps" "s_id st = Some a"
    by (auto simp: find_Some_iff)
  then have "(Some a, st) \<in> set (rev (map (\<lambda>st. (s_id st, st)) steps))"
    by (force simp: image_iff)
  moreover have "distinct (map fst (rev (map (\<lambda>st. (s_id st, st)) steps)))"
    using d by (simp add: rev_map [symmetric] comp_def)
  ultimately show ?thesis unfolding stepMapOf_def by (rule map_of_is_SomeI [rotated])
qed

lemma engine_transition_is_edge:
  assumes "distinct (map s_id steps)" "find (\<lambda>st. s_id st = Some a) steps = Some st"
    and "present (nextStepId st r)"
  shows "(a, idText (nextStepId st r)) \<in> edgesOf (stepMapOf steps)"
proof -
  have "idText (nextStepId st r) \<in> set (transitions st)"
    using assms(3) by (auto simp: nextStepId_def transitions_def split: if_splits)
  with stepMapOf_find [OF assms(1,2)] show ?thesis by (auto simp: edgesOf_def)
qed

lemma cycleAB_cyclic: "cyclic cycleAB"
proof -
  have "(''A'', ''B'') \<in> edgesOf (stepMapOf cycleAB)"
       "(''B'', ''A'') \<in> edgesOf (stepMapOf cycleAB)"
    by (simp_all add: edgesOf_def cycleAB_def scriptStep_def
        emptyStep_def stepMapOf_def present_def transitions_def idText_def)
  then have "(''A'', ''A'') \<in> (edgesOf (stepMapOf cycleAB))\<^sup>+"
    by (rule trancl_into_trancl2 [OF _ r_into_trancl])
  then show ?thesis unfolding cyclic_def by blast
qed

lemmas validation_unfold =
  validateWorkflow_def workflowOf_def checkCircularDependencies_def searchAll_def
  scriptStep_def structuralErrors_def validateStep_def validateScriptStep_def
  danglingTargets_def emptyStep_def stepMapOf_def present_def transitions_def idText_def
  Let_def stepTypes_def

lemma cycleAB_rejected:
  "validateWorkflow h (workflowOf cycleAB ''A'')
     = Some \<lparr>valid = False, errors = [''Circular dependency detected: A -> B -> A'']\<rparr>"
  by (simp add: validation_unfold cycleAB_def)

lemma chainABC_accepted:
  "validateWorkflow h (workflowOf chainABC ''A'') = Some \<lparr>valid = True, errors = []\<rparr>"
  by (simp add: validation_unfold chainABC_def)

lemma cycleAside_rejected:
  "validateWorkflow h (workflowOf cycleAside ''S'')
     = Some \<lparr>valid = False, errors = [''Circular dependency detected: B -> C -> B'']\<rparr>"
  by (simp add: validation_unfold cycleAside_def)

text \<open>
  Claim C6. Whenever the transition graph of a workflow's steps has a cycle, wherever
  it lies with respect to \<^verbatim>\<open>startStep\<close>, \<^verbatim>\<open>validateWorkflow\<close> returns (the search
  terminates), reports the workflow invalid and lists a circular-dependency error.
  The workflow \<^verbatim>\<open>A.onSuccess = B, B.onSuccess = A\<close> is rejected with exactly that error,
  the chain \<^verbatim>\<open>A.onSuccess = B, B.onSuccess = C\<close> passes with no error at all, and a cycle
  \<^verbatim>\<open>B -> C -> B\<close> that \<^verbatim>\<open>startStep = S\<close> does not reach is rejected as well.
\<close>

theorem C6_cycle_detection:
  "(cyclic steps \<longrightarrow> w_steps w = Some steps \<longrightarrow>
      (\<exists>v. validateWorkflow h w = Some v \<and> \<not> valid v
            \<and> (\<exists>e\<in>set (errors v). circular e))) \<and>
   validateWorkflow h (workflowOf cycleAB ''A'')
     = Some \<lparr>valid = False, errors = [''Circular dependency detected: A -> B -> A'']\<rparr> \<and>
   validateWorkflow h (workflowOf chainABC ''A'') = Some \<lparr>valid = True, errors = []\<rparr> \<and>
   validateWorkflow h (workflowOf cycleAside ''S'')
     = Some \<lparr>valid = False, errors = [''Circular dependency detected: B -> C -> B'']\<rparr>"
  using cyclic_fails_validation [of steps w h] cycleAB_rejected [of h] chainABC_accepted [of h]
    cycleAside_rejected [of h]
  by blast

theorem C6_cycle_detection_witness:
  "cyclic cycleAB \<and>
   (\<forall>h. \<exists>v. validateWorkflow h (workflowOf cycleAB ''A'') = Some v \<and> \<not> valid v
              \<and> (\<exists>e\<in>set (errors v). circular e))"
proof
  show "cyclic cycleAB" by (rule cycleAB_cyclic)
next
  show "\<forall>h. \<exists>v. validateWorkflow h (workflowOf cycleAB ''A'') = Some v \<and> \<not> valid v
              \<and> (\<exists>e\<in>set (errors v). circular e)"
  proof
    fix h
    have "w_steps (workflowOf cycleAB ''A'') = Some cycleAB" by (simp add: workflowOf_def)
    with C6_cycle_detection [of cycleAB "workflowOf cycleAB ''A''" h] cycleAB_cyclic
    show "\<exists>v. validateWorkflow h (workflowOf cycleAB ''A'') = Some v \<and> \<not> valid v
              \<and> (\<exists>e\<in>set (errors v). circular e)"
      by blast
  qed
qed

section \<open>Admission gates\<close>

lemma concurrency_fails_open:
  "readJobs env = Inl e \<Longrightarrow> checkConcurrencyLimits env schedule nodeId"
  by (simp add: checkConcurrencyLimits_def)

lemma windowsLoop_outside:
  "(\<And>w. w \<in> set ws \<Longrightarrow> mw_enabled w \<Longrightarrow> \<not> isInMaintenanceWindow env w t) \<Longrightarrow>
   windowsLoop env schedule t ws
     = Inr \<lparr>allowed = True, reason = ''Not in any maintenance window''\<rparr>"
  by (induction ws) auto

lemma canJobRun_store_fails_open:
  "readWindows env = Inl e \<Longrightarrow> allowed (canJobRun env schedule t)"
  by (simp add: canJobRun_def getMaintenanceWindows_def split: option.splits)

lemma canJobRun_cron_fails_open:
  assumes "\<And>p z. cronPrevious env p z (clock env) = Inl e"
  shows "allowed (canJobRun env schedule t)"
proof -
  have "\<not> isInMaintenanceWindow env w u" for w u
    by (simp add: isInMaintenanceWindow_def assms)
  then have "windowsLoop env schedule u ws
     = Inr \<lparr>allowed = True, reason = ''Not in any maintenance window''\<rparr>" for u ws
    by (intro windowsLoop_outside) simp
  then show ?thesis
    by (simp add: canJobRun_def split: option.splits)
qed

text \<open>A throw inside the loop over the windows (an \<^verbatim>\<open>allowedPriorities\<close> without
  \<^verbatim>\<open>includes\<close>) is caught by \<^verbatim>\<open>canJobRun\<close> itself, which then allows the run.\<close>

lemma canJobRun_throw_fails_open:
  "sch_maintenanceWindowIds schedule = Some ids \<Longrightarrow> ids \<noteq> [] \<Longrightarrow>
   windowsLoop env schedule u (getMaintenanceWindows env ids) = Inl e \<Longrightarrow>
   canJobRun env schedule (Some u)
     = \<lparr>allowed = True, reason = ''Error checking maintenance windows''\<rparr>"
  by (simp add: canJobRun_def)

lemma dependencies_fail_closed:
  "sch_dependsOn schedule = Some (d # ds) \<Longrightarrow> readSchedule env d = Inl e \<Longrightarrow>
   \<not> checkDependencies env schedule"
  by (simp add: checkDependencies_def)

section \<open>Maintenance windows\<close>

text \<open>
  The window is anchored at what the cron library reports as the previous fire time
  when asked at the current clock reading; the queried timestamp plays no part in
  finding the anchor. When the query is for the present moment, the test is the
  specified one.
\<close>

lemma isInMaintenanceWindow_anchor:
  "isInMaintenanceWindow env w t =
     (\<exists>p. cronPrevious env (mw_cronExpression w) (strOr (mw_timezone w) ''UTC'') (clock env)
             = Inr (Some p)
          \<and> p \<le> (if t \<noteq> 0 then t else clock env)
          \<and> (if t \<noteq> 0 then t else clock env) \<le> p + mw_duration w * 1000)"
  by (auto simp: isInMaintenanceWindow_def Let_def split: sum.splits option.splits)

lemma isInMaintenanceWindow_now:
  "clock env = t \<Longrightarrow> isInMaintenanceWindow env w t = insideWindowAsSpecified env w t"
  by (auto simp: isInMaintenanceWindow_def insideWindowAsSpecified_def Let_def
        split: sum.splits option.splits)

lemma nightly_instants:
  "everyDayAt 7200000 9000000 = 7200000" "everyDayAt 7200000 122400000 = 93600000"
  by (simp_all add: everyDayAt_def)

lemmas window_unfold =
  canJobRun_def healthyAt_def scheduleWith_def getMaintenanceWindows_def
  nightlyWindow_def isInMaintenanceWindow_def insideWindowAsSpecified_def nightlyCron_def
  strOr_def nightly_instants priorityAllowed_def idText_def

text \<open>The specification's instance, asked at 02:30 UTC about 02:30 UTC, in surroundings
  whose cron library answers the latest fire time not after the clock.\<close>

lemma nightly_window_at_0230:
  "canJobRun (healthyAt 9000000) (scheduleWith ''critical'') (Some 9000000)
     = \<lparr>allowed = True,
        reason = ''Priority '' @ singleQuoted ''critical''
                 @ '' is allowed during maintenance window ''
                 @ singleQuoted ''Nightly Maintenance''\<rparr>"
  "canJobRun (healthyAt 9000000) (scheduleWith ''normal'') (Some 9000000)
     = \<lparr>allowed = False,
        reason = ''Blocked by maintenance window '' @ singleQuoted ''Nightly Maintenance''\<rparr>"
  by (simp_all add: window_unfold)

text \<open>
  Claim C5, evaluated on the code. The window fires daily at 02:00 UTC and lasts 7200
  seconds. The query is about 02:30 UTC of day 0 (9000000 ms), asked when the clock
  reads 10:00 UTC of day 1 (122400000 ms). As specified, the timestamp lies inside the
  window that started at 02:00 of day 0. The code anchors the window at 02:00 of day
  1, finds the timestamp before it and lets a normal-priority schedule run.
\<close>

theorem C5_window_anchored_at_clock:
  "insideWindowAsSpecified (healthyAt 122400000) nightlyWindow 9000000 \<and>
   \<not> isInMaintenanceWindow (healthyAt 122400000) nightlyWindow 9000000 \<and>
   canJobRun (healthyAt 122400000) (scheduleWith ''normal'') (Some 9000000)
     = \<lparr>allowed = True, reason = ''Not in any maintenance window''\<rparr>"
  by (simp add: window_unfold)

section \<open>Completion and rollback\<close>

lemma updateFirst_ids:
  "(\<And>x. e_id (f x) = e_id x) \<Longrightarrow> map e_id (updateFirst P f xs) = map e_id xs"
  by (induction xs) auto

lemma find_updateFirst_same:
  "find (\<lambda>e. e_id e = i) xs = Some y \<Longrightarrow> e_id (f y) = i \<Longrightarrow>
   find (\<lambda>e. e_id e = i) (updateFirst (\<lambda>e. e_id e = i) f xs) = Some (f y)"
  by (induction xs) (auto split: if_splits)

lemma find_updateFirst_other:
  "j \<noteq> i \<Longrightarrow> (\<And>x. e_id (f x) = e_id x) \<Longrightarrow>
   find (\<lambda>e. e_id e = j) (updateFirst (\<lambda>e. e_id e = i) f xs) = find (\<lambda>e. e_id e = j) xs"
  by (induction xs) auto

lemma find_updateFirst_absent:
  "find (\<lambda>e. e_id e = i) xs = None \<Longrightarrow> updateFirst (\<lambda>e. e_id e = i) f xs = xs"
  by (induction xs) (auto split: if_splits)

text \<open>Queueing jobs leaves workflows and executions alone and appends to the jobs.\<close>

lemma queueAll_frame [simp]:
  "workflows (queueAll d js) = workflows d"
  "executions (queueAll d js) = executions d"
  by (induction js arbitrary: d) (simp_all add: queueAll_def insertJob_def)


lemma renumber_fields [simp]:
  "map j_originalStepId (renumber n js) = map j_originalStepId js"
  "map j_scriptId (renumber n js) = map j_scriptId js"
  "map j_node (renumber n js) = map j_node js"
  "map j_state (renumber n js) = map j_state js"
  by (induction js arbitrary: n) simp_all

lemma foldl_insertJob_map:
  "foldl (\<lambda>d' r. insertJob d' (g r)) d rs = queueAll d (map g rs)"
  by (induction rs arbitrary: d) (simp_all add: queueAll_def)

lemma updateExecution_frame [simp]:
  "findWorkflow (updateExecution d i f) k = findWorkflow d k"
  "workflows (updateExecution d i f) = workflows d"
  "jobs (updateExecution d i f) = jobs d"
  by (simp_all add: findWorkflow_def updateExecution_def)

lemma performRollback_effect:
  assumes "findExecution d i = Some y"
  shows "performRollback d i now =
     (case rollbackPlan d y of
        None \<Rightarrow> d
      | Some plan \<Rightarrow> updateExecution (queueAll d (map (rollbackJob y now) plan)) (e_id y)
                       (markRolledBack now))"
  using assms
  by (auto simp: performRollback_def rollbackPlan_def foldl_insertJob_map
        markRolledBack_def split: option.splits)

lemma findExecution_id: "findExecution d i = Some y \<Longrightarrow> e_id y = i"
  by (auto simp: findExecution_def find_Some_iff)

lemma complete_effect:
  assumes y: "findExecution (db eng) (e_id x) = Some y" and wf: "e_workflowId y = e_workflowId x"
  shows "db (completeExecution eng x status why now) =
     (case (if status = ''failed'' then rollbackPlan (db eng) y else None) of
        None \<Rightarrow> updateExecution (db eng) (e_id x) (finish status why now)
      | Some plan \<Rightarrow>
          updateExecution
            (queueAll (updateExecution (db eng) (e_id x) (finish status why now))
               (map (rollbackJob (finish status why now y) now) plan))
            (e_id x) (markRolledBack now))"
proof -
  let ?d1 = "updateExecution (db eng) (e_id x) (finish status why now)"
  have idy: "e_id y = e_id x" using findExecution_id [OF y] .
  have f1: "findExecution ?d1 (e_id x) = Some (finish status why now y)"
    using y find_updateFirst_same [of "e_id x" "executions (db eng)" y "finish status why now"] idy
    by (simp add: findExecution_def updateExecution_def finish_def)
  have p1: "rollbackPlan ?d1 (finish status why now y) = rollbackPlan (db eng) y"
    by (simp add: rollbackPlan_def finish_def split: option.splits)
  have e2: "db (completeExecution eng x status why now) =
     (if status = ''failed'' then
        (case findWorkflow (db eng) (e_workflowId x) of
           None \<Rightarrow> ?d1
         | Some w \<Rightarrow> if w_rollbackEnabled w then performRollback ?d1 (e_id x) now else ?d1)
      else ?d1)"
    by (simp add: completeExecution_def Let_def finish_def split: option.splits)
  show ?thesis
  proof (cases "status = ''failed''")
    case False
    with e2 show ?thesis by simp
  next
    case True
    show ?thesis
    proof (cases "findWorkflow (db eng) (e_workflowId x)")
      case None
      then have "rollbackPlan (db eng) y = None" by (simp add: rollbackPlan_def wf)
      with e2 True None show ?thesis by simp
    next
      case (Some w)
      show ?thesis
      proof (cases "w_rollbackEnabled w")
        case False
        then have "rollbackPlan (db eng) y = None" using Some by (simp add: rollbackPlan_def wf)
        with e2 True Some False show ?thesis by simp
      next
        case en: True
        have idf: "e_id (finish status why now y) = e_id x"
          using idy by (simp add: finish_def)
        have "db (completeExecution eng x status why now) = performRollback ?d1 (e_id x) now"
          using e2 True Some en by simp
        also have "\<dots> = (case rollbackPlan ?d1 (finish status why now y) of
            None \<Rightarrow> ?d1
          | Some plan \<Rightarrow> updateExecution
               (queueAll ?d1 (map (rollbackJob (finish status why now y) now) plan))
               (e_id (finish status why now y)) (markRolledBack now))"
          by (rule performRollback_effect [OF f1])
        also have "\<dots> = (case rollbackPlan (db eng) y of
            None \<Rightarrow> ?d1
          | Some plan \<Rightarrow> updateExecution
               (queueAll ?d1 (map (rollbackJob (finish status why now y) now) plan))
               (e_id x) (markRolledBack now))"
          by (simp only: p1 idf)
        finally show ?thesis using True by (simp split: option.splits)
      qed
    qed
  qed
qed


lemma find_holds: "find P xs = Some x \<Longrightarrow> P x \<and> x \<in> set xs"
  by (induction xs) (auto split: if_splits)


lemma status_after_completion:
  assumes y: "findExecution (db eng) (e_id x) = Some y" and wf: "e_workflowId y = e_workflowId x"
  shows "findExecution (db (completeExecution eng x status why now)) (e_id x) =
     Some (case (if status = ''failed'' then rollbackPlan (db eng) y else None) of
             None \<Rightarrow> finish status why now y
           | Some plan \<Rightarrow> markRolledBack now (finish status why now y))"
proof -
  have idy: "e_id y = e_id x" using findExecution_id [OF y] .
  let ?d1 = "updateExecution (db eng) (e_id x) (finish status why now)"
  have f1: "findExecution ?d1 (e_id x) = Some (finish status why now y)"
    using y find_updateFirst_same [of "e_id x" "executions (db eng)" y "finish status why now"] idy
    by (simp add: findExecution_def updateExecution_def finish_def)
  have f2: "findExecution (updateExecution (queueAll ?d1 js) (e_id x) (markRolledBack now)) (e_id x)
              = Some (markRolledBack now (finish status why now y))" for js
    using f1 find_updateFirst_same [of "e_id x" "executions ?d1" "finish status why now y"
        "markRolledBack now"] idy
    by (simp add: findExecution_def updateExecution_def finish_def markRolledBack_def)
  show ?thesis
    unfolding complete_effect [OF y wf]
    using f1 f2 by (auto split: option.splits)
qed


lemma renumber_length [simp]: "length (renumber n js) = length js"
  by (induction js arbitrary: n) simp_all


lemmas patch_unfold =
  engineWith_def patchWorkflow_def patchExecution_def patchSteps_def workflowOf_def
  scriptStep_def emptyStep_def emptyExecution_def resultOf_def findExecution_def
  findWorkflow_def declaresRollback_def rollbackScriptOf_def present_def idText_def


section \<open>Start-up after a restart\<close>

lemma performRollback_frame:
  "workflows (performRollback d i now) = workflows d"
  "map e_id (executions (performRollback d i now)) = map e_id (executions d)"
  "j \<noteq> i \<Longrightarrow> findExecution (performRollback d i now) j = findExecution d j"
proof -
  show "workflows (performRollback d i now) = workflows d"
  proof (cases "findExecution d i")
    case None
    then show ?thesis by (simp add: performRollback_def)
  next
    case (Some y)
    show ?thesis
      unfolding performRollback_effect [OF Some]
      by (simp add: updateExecution_def split: option.splits)
  qed
  show "map e_id (executions (performRollback d i now)) = map e_id (executions d)"
  proof (cases "findExecution d i")
    case None
    then show ?thesis by (simp add: performRollback_def)
  next
    case (Some y)
    show ?thesis
      unfolding performRollback_effect [OF Some]
      by (simp add: updateExecution_def updateFirst_ids markRolledBack_def split: option.splits)
  qed
  show "findExecution (performRollback d i now) j = findExecution d j" if "j \<noteq> i"
  proof (cases "findExecution d i")
    case None
    then show ?thesis by (simp add: performRollback_def)
  next
    case (Some y)
    have "e_id y = i" using findExecution_id [OF Some] .
    with that show ?thesis
      unfolding performRollback_effect [OF Some]
      by (simp add: findExecution_def updateExecution_def find_updateFirst_other
            markRolledBack_def split: option.splits)
  qed
qed

lemma complete_frame:
  "workflows (db (completeExecution eng x status why now)) = workflows (db eng)"
  "map e_id (executions (db (completeExecution eng x status why now)))
     = map e_id (executions (db eng))"
  "j \<noteq> e_id x \<Longrightarrow>
     findExecution (db (completeExecution eng x status why now)) j = findExecution (db eng) j"
  by (auto simp: completeExecution_def Let_def performRollback_frame updateExecution_def
        updateFirst_ids findExecution_def find_updateFirst_other
        performRollback_frame(3) [unfolded findExecution_def]
        split: option.splits)

lemma rollbackPlan_workflows:
  "workflows d' = workflows d \<Longrightarrow> rollbackPlan d' e = rollbackPlan d e"
  by (simp add: rollbackPlan_def findWorkflow_def)

lemma complete_interrupted:
  assumes "findExecution (db eng) (e_id x) = Some x"
  shows "findExecution
           (db (completeExecution eng x ''failed''
                  (Some ''Engine restart - execution interrupted'') now)) (e_id x)
         = Some (interrupted (db eng) now x)"
  using status_after_completion [OF assms refl, of "''failed''"
          "Some ''Engine restart - execution interrupted''" now]
  by (simp add: interrupted_def Let_def split: option.splits)

lemma restart_sweep:
  "distinct (map e_id xs) \<Longrightarrow>
   (\<And>x. x \<in> set xs \<Longrightarrow> findExecution (db eng) (e_id x) = Some x) \<Longrightarrow>
   workflows (db (restart now eng xs)) = workflows (db eng)
   \<and> map e_id (executions (db (restart now eng xs))) = map e_id (executions (db eng))
   \<and> (\<forall>x\<in>set xs. findExecution (db (restart now eng xs)) (e_id x)
                      = Some (interrupted (db eng) now x))
   \<and> (\<forall>j. j \<notin> e_id ` set xs \<longrightarrow>
            findExecution (db (restart now eng xs)) j = findExecution (db eng) j)"
proof (induction xs arbitrary: eng)
  case Nil
  then show ?case by (simp add: restart_def)
next
  case (Cons a xs)
  let ?eng1 = "completeExecution eng a ''failed''
                    (Some ''Engine restart - execution interrupted'') now"
  have r: "restart now eng (a # xs) = restart now ?eng1 xs" by (simp add: restart_def)
  have d: "distinct (map e_id xs)" "e_id a \<notin> e_id ` set xs" using Cons.prems(1) by auto
  have d3: "e_id x \<noteq> e_id a" if "x \<in> set xs" for x
    using that d(2) by (metis imageI)
  have keep: "findExecution (db ?eng1) (e_id x) = Some x" if "x \<in> set xs" for x
  proof -
    from that have "e_id x \<noteq> e_id a" by (rule d3)
    from complete_frame(3) [OF this] Cons.prems(2) [of x] that show ?thesis by simp
  qed
  have w1: "workflows (db ?eng1) = workflows (db eng)" by (rule complete_frame(1))
  have p1: "interrupted (db ?eng1) now x = interrupted (db eng) now x" for x
    by (simp add: interrupted_def rollbackPlan_workflows [OF w1])
  note ih = Cons.IH [OF d(1) keep, simplified p1]
  have a: "findExecution (db ?eng1) (e_id a) = Some (interrupted (db eng) now a)"
    using complete_interrupted [of eng a now] Cons.prems(2) [of a] by simp
  show ?case
    unfolding r using ih w1 complete_frame(2) [of eng a] a d(2) complete_frame(3) [of _ a eng]
    by auto
qed

lemma find_member:
  "distinct (map e_id xs) \<Longrightarrow> x \<in> set xs \<Longrightarrow> find (\<lambda>e. e_id e = e_id x) xs = Some x"
  by (induction xs) force+

lemma findExecution_member:
  "distinct (map e_id (executions d)) \<Longrightarrow> x \<in> set (executions d) \<Longrightarrow>
   findExecution d (e_id x) = Some x"
  unfolding findExecution_def by (rule find_member)

lemma initialize_restart:
  "db (initialize eng now)
     = db (restart now (eng\<lparr>quarantinedNodes := quarantinedNodes eng
                \<union> set (map qn_nodeId (filter qn_active (quarantines (db eng))))\<rparr>)
             (filter (\<lambda>e. e_status e = ''running'') (executions (db eng))))"
  by (simp add: initialize_def restart_def Let_def)

lemma interrupted_fields:
  "e_status (interrupted d now x)
     = (if rollbackPlan d x = None then ''failed'' else ''rolled_back'')"
  "e_completionReason (interrupted d now x) = Some ''Engine restart - execution interrupted''"
  "e_stepResults (interrupted d now x) = e_stepResults x"
  "e_currentStep (interrupted d now x) = e_currentStep x"
  "e_id (interrupted d now x) = e_id x"
  by (simp_all add: interrupted_def finish_def markRolledBack_def Let_def split: option.splits)

text \<open>
  Claim C3, as amended. Execution identifiers being unique, every execution stored
  with status \<^verbatim>\<open>running\<close> is found after \<^verbatim>\<open>initialize\<close> with the completion reason
  \<^verbatim>\<open>Engine restart - execution interrupted\<close> and with status \<^verbatim>\<open>failed\<close>, or with status
  \<^verbatim>\<open>rolled_back\<close> when its workflow is stored with rollback enabled and the rollback
  steps can be collected (\<open>rollbackPlan\<close> answers them), in which case
  \<^verbatim>\<open>completeExecution\<close> goes on to roll it back. Its step results and its current step
  are as before (it is not resumed), and no execution is left running.
\<close>

theorem C3_restart_recovery:
  assumes "distinct (map e_id (executions (db eng)))"
    and "x \<in> set (executions (db eng))" and "e_status x = ''running''"
  shows "findExecution (db (initialize eng now)) (e_id x) = Some (interrupted (db eng) now x)
       \<and> e_status (interrupted (db eng) now x)
           = (if rollbackPlan (db eng) x = None then ''failed'' else ''rolled_back'')
       \<and> e_completionReason (interrupted (db eng) now x)
           = Some ''Engine restart - execution interrupted''
       \<and> e_stepResults (interrupted (db eng) now x) = e_stepResults x
       \<and> e_currentStep (interrupted (db eng) now x) = e_currentStep x
       \<and> (\<forall>e\<in>set (executions (db (initialize eng now))). e_status e \<noteq> ''running'')"
proof -
  let ?eng1 = "eng\<lparr>quarantinedNodes := quarantinedNodes eng
                \<union> set (map qn_nodeId (filter qn_active (quarantines (db eng))))\<rparr>"
  let ?xs = "filter (\<lambda>e. e_status e = ''running'') (executions (db eng))"
  let ?d' = "db (restart now ?eng1 ?xs)"
  have dx: "distinct (map e_id ?xs)" using assms(1) by (rule distinct_map_filter)
  have mem: "findExecution (db ?eng1) (e_id y) = Some y" if "y \<in> set ?xs" for y
    using findExecution_member [OF assms(1), of y] that by simp
  from restart_sweep [OF dx mem, of now]
  have ids: "map e_id (executions ?d') = map e_id (executions (db eng))"
    and swept: "\<And>y. y \<in> set ?xs \<Longrightarrow> findExecution ?d' (e_id y) = Some (interrupted (db eng) now y)"
    and kept: "\<And>j. j \<notin> e_id ` set ?xs \<Longrightarrow> findExecution ?d' j = findExecution (db eng) j"
    by simp_all
  have x: "x \<in> set ?xs" using assms(2,3) by simp
  have none: "e_status e \<noteq> ''running''" if e: "e \<in> set (executions ?d')" for e
  proof (cases "e_id e \<in> e_id ` set ?xs")
    case True
    then obtain y where y: "y \<in> set ?xs" "e_id e = e_id y" by auto
    have "distinct (map e_id (executions ?d'))" using ids assms(1) by simp
    from findExecution_member [OF this e] swept [OF y(1)] y(2)
    have "e = interrupted (db eng) now y" by simp
    then show ?thesis by (simp add: interrupted_fields)
  next
    case False
    have "distinct (map e_id (executions ?d'))" using ids assms(1) by simp
    from findExecution_member [OF this e] kept [OF False]
    have "findExecution (db eng) (e_id e) = Some e" by simp
    then have old: "e \<in> set (executions (db eng))"
      by (auto simp: findExecution_def dest: find_holds)
    show ?thesis
    proof
      assume "e_status e = ''running''"
      with old have "e \<in> set ?xs" by simp
      then have "e_id e \<in> e_id ` set ?xs" by (rule imageI)
      with False show False by contradiction
    qed
  qed
  show ?thesis
    unfolding initialize_restart
  proof (intro conjI)
    show "findExecution ?d' (e_id x) = Some (interrupted (db eng) now x)"
      by (rule swept [OF x])
    show "e_status (interrupted (db eng) now x)
           = (if rollbackPlan (db eng) x = None then ''failed'' else ''rolled_back'')"
      by (rule interrupted_fields)
    show "e_completionReason (interrupted (db eng) now x)
           = Some ''Engine restart - execution interrupted''"
      by (rule interrupted_fields)
    show "e_stepResults (interrupted (db eng) now x) = e_stepResults x"
      by (rule interrupted_fields)
    show "e_currentStep (interrupted (db eng) now x) = e_currentStep x"
      by (rule interrupted_fields)
    show "\<forall>e\<in>set (executions ?d'). e_status e \<noteq> ''running''"
      using none by blast
  qed
qed

lemma patch_plan:
  "rollbackPlan (db (engineWith [patchWorkflow True] [patchExecution])) patchExecution
     = Some [(Some ''patch'', ''restore-backup''), (Some ''backup'', ''drop-backup'')]"
  "rollbackPlan (db (engineWith [patchWorkflow False] [patchExecution])) patchExecution = None"
  by (simp_all add: rollbackPlan_def patch_unfold)

text \<open>The patch execution across a restart: failed when its workflow has rollback
  switched off, rolled back when it has rollback switched on.\<close>

theorem C3_restart_recovery_witness:
  "map_option e_status
     (findExecution (db (initialize (engineWith [patchWorkflow False] [patchExecution]) 5000)) 7)
     = Some ''failed''
   \<and> map_option e_completionReason
     (findExecution (db (initialize (engineWith [patchWorkflow False] [patchExecution]) 5000)) 7)
     = Some (Some ''Engine restart - execution interrupted'')
   \<and> map_option e_status
     (findExecution (db (initialize (engineWith [patchWorkflow True] [patchExecution]) 5000)) 7)
     = Some ''rolled_back''"
proof -
  have d: "distinct (map e_id (executions (db (engineWith [patchWorkflow b] [patchExecution]))))"
    and m: "patchExecution \<in> set (executions (db (engineWith [patchWorkflow b] [patchExecution])))"
    and r: "e_status patchExecution = ''running''" and i: "e_id patchExecution = 7" for b
    by (simp_all add: engineWith_def patchExecution_def emptyExecution_def)
  from C3_restart_recovery [OF d m r, of False 5000] C3_restart_recovery [OF d m r, of True 5000]
  show ?thesis by (simp add: patch_plan i)
qed

text \<open>
  Claim C3 as stated does not hold: the patch execution is stored running, its
  workflow has rollback enabled, and after \<^verbatim>\<open>initialize\<close> its status is
  \<^verbatim>\<open>rolled_back\<close>, not \<^verbatim>\<open>failed\<close>.
\<close>

theorem C3_restart_counterexample:
  "e_status patchExecution = ''running'' \<and>
   map e_status
     (executions (db (initialize (engineWith [patchWorkflow True] [patchExecution]) 5000)))
     = [''rolled_back'']"
  by (simp add: initialize_def completeExecution_def performRollback_def insertJob_def
        rollbackJob_def updateExecution_def Let_def patch_unfold)


section \<open>Triggering a workflow twice\<close>

lemma trigger_existing:
  "findWorkflow (db eng) wid = Some w \<Longrightarrow> w_enabled w \<Longrightarrow>
   findRunning (db eng) wid nid = Some existing \<Longrightarrow>
   triggerWorkflow h eng wid nid who kind now = (Inr existing, eng)"
  by (simp add: triggerWorkflow_def)

lemma find_append_new:
  "find P xs = None \<Longrightarrow> P x \<Longrightarrow> find P (xs @ [x]) = Some x"
  by (induction xs) (auto split: if_splits)

text \<open>The lookup answers a stored running execution of the pair whenever the store
  holds one, and that very record when it holds no other.\<close>

lemma findRunning_finds:
  assumes "x \<in> set (executions d)" "e_workflowId x = wid" "e_nodeId x = nid"
    "e_status x = ''running''"
  shows "\<exists>existing. findRunning d wid nid = Some existing
           \<and> existing \<in> set (executions d) \<and> e_workflowId existing = wid
           \<and> e_nodeId existing = nid \<and> e_status existing = ''running''"
proof (cases "findRunning d wid nid")
  case None
  with assms show ?thesis by (auto simp: findRunning_def find_None_iff)
next
  case (Some existing)
  from find_holds [OF Some [unfolded findRunning_def]] Some show ?thesis by simp
qed

lemma trigger_unchanged:
  "findRunning (db eng) wid nid = Some existing \<Longrightarrow>
   snd (triggerWorkflow h eng wid nid who kind now) = eng"
  by (simp add: triggerWorkflow_def split: option.splits)

text \<open>A call that returns an execution leaves it stored as the running execution that
  the lookup answers for the pair, with the workflow still stored and enabled.\<close>

lemma trigger_leaves_running:
  assumes "triggerWorkflow h eng wid nid who kind now = (Inr e, eng')"
  shows "findRunning (db eng') wid nid = Some e
         \<and> (\<exists>w. findWorkflow (db eng') wid = Some w \<and> w_enabled w)"
proof -
  from assms obtain w where w: "findWorkflow (db eng) wid = Some w" "w_enabled w"
    by (auto simp: triggerWorkflow_def split: option.splits if_splits)
  show ?thesis
  proof (cases "findRunning (db eng) wid nid")
    case (Some existing)
    with assms w have "e = existing" "eng' = eng" by (auto simp: triggerWorkflow_def)
    with Some w show ?thesis by simp
  next
    case None
    with assms w obtain v where v: "validateWorkflow h w = Some v" "valid v"
      by (auto simp: triggerWorkflow_def split: option.splits if_splits)
    define x where "x = \<lparr>e_id = 0, e_workflowId = wid, e_workflowName = w_name w,
                               e_nodeId = nid, e_status = ''running'',
                               e_currentStep = w_startStep w, e_triggeredBy = who,
                               e_triggerType = strOr kind ''manual'',
                               e_startTime = now, e_endTime = None, e_stepResults = [],
                               e_completionReason = None, e_completedAt = None\<rparr>"
    from assms w None v have e: "e = x\<lparr>e_id := nextId (db eng)\<rparr>"
      and eng': "eng' = eng\<lparr>db := fst (insertExecution (db eng) x),
                     activeExecutions := insert (nextId (db eng)) (activeExecutions eng)\<rparr>"
      by (auto simp: triggerWorkflow_def Let_def x_def insertExecution_def)
    have w': "findWorkflow (db eng') wid = Some w"
      using w by (simp add: eng' findWorkflow_def insertExecution_def)
    have "findRunning (db eng') wid nid = Some e"
      unfolding findRunning_def eng' using None
      by (simp add: insertExecution_def e findRunning_def find_append_new x_def)
    with w' w(2) show ?thesis by simp
  qed
qed

lemma trigger_twice:
  assumes "triggerWorkflow h eng wid nid who kind now = (Inr e, eng')"
  shows "triggerWorkflow h eng' wid nid who2 kind2 now2 = (Inr e, eng')"
  using trigger_leaves_running [OF assms] by (auto intro: trigger_existing)

lemma trigger_returns_running:
  assumes "triggerWorkflow h eng wid nid who kind now = (Inr e, eng')"
  shows "e \<in> set (executions (db eng')) \<and> e_workflowId e = wid \<and> e_nodeId e = nid
         \<and> e_status e = ''running''"
proof -
  from trigger_leaves_running [OF assms]
  have "findRunning (db eng') wid nid = Some e" by simp
  from find_holds [OF this [unfolded findRunning_def]] show ?thesis by simp
qed

lemma trigger_in_flight:
  assumes x: "x \<in> set (executions (db eng))" "e_workflowId x = wid" "e_nodeId x = nid"
    "e_status x = ''running''"
  shows "snd (triggerWorkflow h eng wid nid who kind now) = eng"
    and "findWorkflow (db eng) wid = Some w \<Longrightarrow> w_enabled w \<Longrightarrow>
         \<exists>existing. triggerWorkflow h eng wid nid who kind now = (Inr existing, eng)
            \<and> existing \<in> set (executions (db eng)) \<and> e_workflowId existing = wid
            \<and> e_nodeId existing = nid \<and> e_status existing = ''running''
            \<and> ((\<forall>y \<in> set (executions (db eng)).
                    e_workflowId y = wid \<and> e_nodeId y = nid \<and> e_status y = ''running''
                    \<longrightarrow> y = x) \<longrightarrow> existing = x)"
proof -
  from findRunning_finds [OF x] obtain existing where
    f: "findRunning (db eng) wid nid = Some existing"
    and m: "existing \<in> set (executions (db eng))" "e_workflowId existing = wid"
      "e_nodeId existing = nid" "e_status existing = ''running''"
    by blast
  from trigger_unchanged [OF f]
  show "snd (triggerWorkflow h eng wid nid who kind now) = eng" .
  assume w: "findWorkflow (db eng) wid = Some w" "w_enabled w"
  from trigger_existing [OF w f] m
  show "\<exists>existing. triggerWorkflow h eng wid nid who kind now = (Inr existing, eng)
            \<and> existing \<in> set (executions (db eng)) \<and> e_workflowId existing = wid
            \<and> e_nodeId existing = nid \<and> e_status existing = ''running''
            \<and> ((\<forall>y \<in> set (executions (db eng)).
                    e_workflowId y = wid \<and> e_nodeId y = nid \<and> e_status y = ''running''
                    \<longrightarrow> y = x) \<longrightarrow> existing = x)"
    by (intro exI [of _ existing]) blast
qed

lemma trigger_guards:
  "findWorkflow (db eng) wid = None \<Longrightarrow>
   triggerWorkflow h eng wid nid who kind now
     = (Inl (''Workflow '' @ decimal wid @ '' not found''), eng)"
  "findWorkflow (db eng) wid = Some w \<Longrightarrow> \<not> w_enabled w \<Longrightarrow>
   triggerWorkflow h eng wid nid who kind now
     = (Inl (''Workflow '' @ decimal wid @ '' is disabled''), eng)"
  by (simp_all add: triggerWorkflow_def)

text \<open>
  Claim C4. Let the store hold an execution \<open>x\<close> with status \<^verbatim>\<open>running\<close> for the workflow
  and the node. Then \<^verbatim>\<open>triggerWorkflow\<close> creates no execution: it leaves the store and
  the engine as they were. When the workflow is stored and enabled it returns a stored
  execution of that workflow and node with status \<^verbatim>\<open>running\<close>, which is \<open>x\<close> itself when
  \<open>x\<close> is the only such execution. When the workflow is no longer stored, or is
  disabled, it throws instead of returning the execution. And a call that returned an
  execution, repeated on the state it left, returns the same execution, a stored
  running execution of the pair, and changes nothing, whoever triggers it and whenever.
\<close>

theorem C4_trigger_idempotent:
  "(x \<in> set (executions (db eng)) \<and> e_workflowId x = workflowId \<and> e_nodeId x = nodeId
      \<and> e_status x = ''running'' \<longrightarrow>
      snd (triggerWorkflow h eng workflowId nodeId who kind now) = eng
      \<and> (findWorkflow (db eng) workflowId = Some w \<and> w_enabled w \<longrightarrow>
           (\<exists>existing.
              triggerWorkflow h eng workflowId nodeId who kind now = (Inr existing, eng)
              \<and> existing \<in> set (executions (db eng))
              \<and> e_workflowId existing = workflowId \<and> e_nodeId existing = nodeId
              \<and> e_status existing = ''running''
              \<and> ((\<forall>y \<in> set (executions (db eng)).
                      e_workflowId y = workflowId \<and> e_nodeId y = nodeId
                      \<and> e_status y = ''running'' \<longrightarrow> y = x)
                   \<longrightarrow> existing = x)))
      \<and> (findWorkflow (db eng) workflowId = None \<longrightarrow>
           triggerWorkflow h eng workflowId nodeId who kind now
             = (Inl (''Workflow '' @ decimal workflowId @ '' not found''), eng))
      \<and> (findWorkflow (db eng) workflowId = Some w \<and> \<not> w_enabled w \<longrightarrow>
           triggerWorkflow h eng workflowId nodeId who kind now
             = (Inl (''Workflow '' @ decimal workflowId @ '' is disabled''), eng)))
   \<and> (triggerWorkflow h eng workflowId nodeId who kind now = (Inr e, eng') \<longrightarrow>
        triggerWorkflow h eng' workflowId nodeId who2 kind2 now2 = (Inr e, eng')
        \<and> e \<in> set (executions (db eng')) \<and> e_workflowId e = workflowId
        \<and> e_nodeId e = nodeId \<and> e_status e = ''running'')"
proof (intro conjI impI)
  assume x: "x \<in> set (executions (db eng)) \<and> e_workflowId x = workflowId
             \<and> e_nodeId x = nodeId \<and> e_status x = ''running''"
  then have x': "x \<in> set (executions (db eng))" "e_workflowId x = workflowId"
    "e_nodeId x = nodeId" "e_status x = ''running''" by simp_all
  show "snd (triggerWorkflow h eng workflowId nodeId who kind now) = eng"
    by (rule trigger_in_flight(1) [OF x'])
  {
    assume "findWorkflow (db eng) workflowId = Some w \<and> w_enabled w"
    then have w: "findWorkflow (db eng) workflowId = Some w" "w_enabled w" by simp_all
    show "\<exists>existing.
              triggerWorkflow h eng workflowId nodeId who kind now = (Inr existing, eng)
              \<and> existing \<in> set (executions (db eng))
              \<and> e_workflowId existing = workflowId \<and> e_nodeId existing = nodeId
              \<and> e_status existing = ''running''
              \<and> ((\<forall>y \<in> set (executions (db eng)).
                      e_workflowId y = workflowId \<and> e_nodeId y = nodeId
                      \<and> e_status y = ''running'' \<longrightarrow> y = x)
                   \<longrightarrow> existing = x)"
      by (rule trigger_in_flight(2) [OF x' w])
  }
  {
    assume "findWorkflow (db eng) workflowId = None"
    then show "triggerWorkflow h eng workflowId nodeId who kind now
             = (Inl (''Workflow '' @ decimal workflowId @ '' not found''), eng)"
      by (rule trigger_guards(1))
  }
  {
    assume "findWorkflow (db eng) workflowId = Some w \<and> \<not> w_enabled w"
    then show "triggerWorkflow h eng workflowId nodeId who kind now
             = (Inl (''Workflow '' @ decimal workflowId @ '' is disabled''), eng)"
      by (simp add: trigger_guards(2))
  }
next
  assume t: "triggerWorkflow h eng workflowId nodeId who kind now = (Inr e, eng')"
  show "triggerWorkflow h eng' workflowId nodeId who2 kind2 now2 = (Inr e, eng')"
    by (rule trigger_twice [OF t])
  from trigger_returns_running [OF t]
  show "e \<in> set (executions (db eng'))" "e_workflowId e = workflowId" "e_nodeId e = nodeId"
    "e_status e = ''running''" by simp_all
qed

lemma chain_valid: "validateWorkflow h chainWorkflow = Some \<lparr>valid = True, errors = []\<rparr>"
  unfolding chainWorkflow_def by (rule chainABC_accepted)

lemma first_trigger:
  "\<exists>e eng'. triggerWorkflow h (engineWith [chainWorkflow] []) 1 ''n1'' ''admin'' None 1000
      = (Inr e, eng') \<and> e_id e = 100 \<and> e_status e = ''running''
      \<and> map e_id (executions (db eng')) = [100]"
  by (simp add: triggerWorkflow_def engineWith_def findWorkflow_def findRunning_def chain_valid
        insertExecution_def Let_def)
     (simp add: chainWorkflow_def workflowOf_def)

lemma engineWith_store [simp]:
  "executions (db (engineWith ws es)) = es"
  "findWorkflow (db (engineWith [w] es)) i = (if w_id w = i then Some w else None)"
  "findWorkflow (db (engineWith [] es)) i = None"
  by (simp_all add: engineWith_def findWorkflow_def)

lemma inFlight_fields [simp]:
  "e_id (executionOn i w n s) = i" "e_workflowId (executionOn i w n s) = w"
  "e_nodeId (executionOn i w n s) = n" "e_status (executionOn i w n s) = s"
  by (simp_all add: executionOn_def)

lemma chainWorkflow_fields [simp]:
  "w_id chainWorkflow = 1" "w_enabled chainWorkflow"
  by (simp_all add: chainWorkflow_def workflowOf_def)

text \<open>
  With four executions stored, a trigger of workflow 1 for node \<^verbatim>\<open>n2\<close> returns the one
  running execution of that pair, which is neither the first stored execution nor the
  first of that node, and the store is as before. And the chain workflow triggered
  twice for node \<^verbatim>\<open>n1\<close> on an empty store: both calls return the execution with
  identifier 100, and the store holds that one execution.
\<close>

theorem C4_trigger_idempotent_witness:
  "\<forall>h. triggerWorkflow h (engineWith [chainWorkflow] inFlight) 1 ''n2'' ''operator'' None 2000
         = (Inr (executionOn 9 1 ''n2'' ''running''), engineWith [chainWorkflow] inFlight)
       \<and> (\<exists>e eng'.
            triggerWorkflow h (engineWith [chainWorkflow] []) 1 ''n1'' ''admin'' None 1000
              = (Inr e, eng')
            \<and> triggerWorkflow h eng' 1 ''n1'' ''operator'' (Some ''alert'') 2000 = (Inr e, eng')
            \<and> map e_id (executions (db eng')) = [100])"
proof (intro allI conjI)
  fix h
  have only: "\<forall>y \<in> set (executions (db (engineWith [chainWorkflow] inFlight))).
          e_workflowId y = 1 \<and> e_nodeId y = ''n2'' \<and> e_status y = ''running''
          \<longrightarrow> y = executionOn 9 1 ''n2'' ''running''"
    by (simp add: inFlight_def)
  have stored: "executionOn 9 1 ''n2'' ''running''
                  \<in> set (executions (db (engineWith [chainWorkflow] inFlight)))
                \<and> e_workflowId (executionOn 9 1 ''n2'' ''running'') = 1
                \<and> e_nodeId (executionOn 9 1 ''n2'' ''running'') = ''n2''
                \<and> e_status (executionOn 9 1 ''n2'' ''running'') = ''running''"
    by (simp add: inFlight_def)
  have w: "findWorkflow (db (engineWith [chainWorkflow] inFlight)) 1 = Some chainWorkflow
           \<and> w_enabled chainWorkflow"
    by simp
  from C4_trigger_idempotent [of "executionOn 9 1 ''n2'' ''running''"
         "engineWith [chainWorkflow] inFlight" 1 "''n2''" h "''operator''" None 2000
         chainWorkflow, THEN conjunct1, THEN mp, OF stored, THEN conjunct2, THEN conjunct1,
         THEN mp, OF w]
  obtain existing where
    r: "triggerWorkflow h (engineWith [chainWorkflow] inFlight) 1 ''n2'' ''operator'' None 2000
          = (Inr existing, engineWith [chainWorkflow] inFlight)"
    and u: "(\<forall>y \<in> set (executions (db (engineWith [chainWorkflow] inFlight))).
              e_workflowId y = 1 \<and> e_nodeId y = ''n2'' \<and> e_status y = ''running''
              \<longrightarrow> y = executionOn 9 1 ''n2'' ''running'')
            \<longrightarrow> existing = executionOn 9 1 ''n2'' ''running''"
    by blast
  from u only have "existing = executionOn 9 1 ''n2'' ''running''" by (rule mp)
  with r
  show "triggerWorkflow h (engineWith [chainWorkflow] inFlight) 1 ''n2'' ''operator'' None 2000
         = (Inr (executionOn 9 1 ''n2'' ''running''), engineWith [chainWorkflow] inFlight)"
    by (simp only:)
next
  fix h
  from first_trigger [of h] obtain e eng' where
    t: "triggerWorkflow h (engineWith [chainWorkflow] []) 1 ''n1'' ''admin'' None 1000 = (Inr e, eng')"
    and i: "map e_id (executions (db eng')) = [100]" by auto
  from C4_trigger_idempotent [of _ "engineWith [chainWorkflow] []" 1 "''n1''" h "''admin''" None
         1000 _ e eng' "''operator''" "Some ''alert''" 2000] t
  have "triggerWorkflow h eng' 1 ''n1'' ''operator'' (Some ''alert'') 2000 = (Inr e, eng')"
    by blast
  with t i show "\<exists>e eng'.
      triggerWorkflow h (engineWith [chainWorkflow] []) 1 ''n1'' ''admin'' None 1000 = (Inr e, eng')
      \<and> triggerWorkflow h eng' 1 ''n1'' ''operator'' (Some ''alert'') 2000 = (Inr e, eng')
      \<and> map e_id (executions (db eng')) = [100]"
    by (intro exI [of _ e] exI [of _ eng']) simp
qed

text \<open>
  The claim does not hold once the workflow has been disabled or deleted while its
  execution is still running: the store holds the running execution of workflow 1 on
  node \<^verbatim>\<open>n2\<close>, and the trigger throws instead of returning it.
\<close>

theorem C4_trigger_counterexample:
  "\<forall>h. executionOn 9 1 ''n2'' ''running''
          \<in> set (executions (db (engineWith [chainWorkflow\<lparr>w_enabled := False\<rparr>] inFlight)))
       \<and> triggerWorkflow h (engineWith [chainWorkflow\<lparr>w_enabled := False\<rparr>] inFlight) 1 ''n2''
           ''operator'' None 2000
         = (Inl ''Workflow 1 is disabled'',
            engineWith [chainWorkflow\<lparr>w_enabled := False\<rparr>] inFlight)
       \<and> triggerWorkflow h (engineWith [] inFlight) 1 ''n2'' ''operator'' None 2000
         = (Inl ''Workflow 1 not found'', engineWith [] inFlight)"
  by (simp add: triggerWorkflow_def) (simp add: inFlight_def)

section \<open>Condition evaluation\<close>

text \<open>What \<^verbatim>\<open>evaluate\<close> does for each type: the evaluator of the type, with every
  throw answered \<open>false\<close>.\<close>

lemma evaluate_exitCode:
  "c_type c = Some ''exitCode'' \<Longrightarrow> evaluate h (Some c) r = caught (evaluateExitCode h c r)"
  by (cases c) (simp add: present_def)

lemma evaluate_outputPattern:
  "c_type c = Some ''outputPattern'' \<Longrightarrow>
   evaluate h (Some c) r = caught (evaluateOutputPattern h c r)"
  by (cases c) (simp add: present_def)

lemma evaluate_threshold:
  "c_type c = Some ''threshold'' \<Longrightarrow> evaluate h (Some c) r = caught (evaluateThreshold h c r)"
  by (cases c) (simp add: present_def)

lemma evaluate_jsonPath:
  "c_type c = Some ''jsonPath'' \<Longrightarrow> evaluate h (Some c) r = caught (evaluateJsonPath h c r)"
  by (cases c) (simp add: present_def)











text \<open>
  The guard of the threshold evaluator, \<^verbatim>\<open>isNaN(actualValue)\<close>, lets \<^verbatim>\<open>null\<close> through,
  which is what the extraction answers when the path runs into a missing member:
  \<^verbatim>\<open>null < 10\<close> is true.
\<close>

lemma freeSpace_example:
  "extractField h (JObj [(''exitCode'', JNum (Fin 0))]) (Some ''metrics.free'') = JNull"
  "evaluate h (Some freeSpaceCondition) (JObj [(''exitCode'', JNum (Fin 0))]) = JBool True"
  by (simp_all add: freeSpaceCondition_def present_def caught_def evaluateThreshold_def
        extractField_def idText_def nullish_def stepInto_def member_def
        getProp_def objectGet_def objectPrototypeNames_def compareWith_def operatorNames_def
        applyOperator_def jsLess_def toPrimitive_def strOr_def Let_def)





section \<open>What the gates and the evaluator do on an error\<close>

text \<open>A dependency whose lookup throws keeps the loop from ever answering that the
  dependencies are met: it stops before it, at it, or not at all.\<close>

lemma dependenciesLoop_throwing:
  "d \<in> set deps \<Longrightarrow> readSchedule env d = Inl e \<Longrightarrow>
   dependenciesLoop env schedule deps \<noteq> Inr True"
  by (induction deps) (auto split: sum.splits option.splits)

lemma dependencies_unverified:
  "sch_dependsOn schedule = Some deps \<Longrightarrow> d \<in> set deps \<Longrightarrow> readSchedule env d = Inl e \<Longrightarrow>
   \<not> checkDependencies env schedule"
  using dependenciesLoop_throwing [of d deps env e schedule]
  by (auto simp: checkDependencies_def split: sum.splits)

text \<open>
  Claim C2. When the store throws on the read of the jobs, the concurrency gate allows
  the run. When the store throws on the read of the windows, when the cron library
  throws, or when anything throws in the loop over the windows, the maintenance-window
  gate allows the run. The dependency gate does the opposite: when the store throws on
  the lookup of any dependency, the dependencies are reported as not met. Condition
  evaluation answers a throw in any of its evaluators with \<open>false\<close>.
\<close>

theorem C2_gates_on_error:
  "(readJobs env = Inl e \<longrightarrow> checkConcurrencyLimits env schedule nodeId)
   \<and> (readWindows env = Inl e \<longrightarrow> allowed (canJobRun env schedule t))
   \<and> ((\<forall>p z. cronPrevious env p z (clock env) = Inl e)
        \<longrightarrow> allowed (canJobRun env schedule t))
   \<and> (sch_maintenanceWindowIds schedule = Some ids \<and> ids \<noteq> []
        \<and> windowsLoop env schedule u (getMaintenanceWindows env ids) = Inl e
        \<longrightarrow> canJobRun env schedule (Some u)
              = \<lparr>allowed = True, reason = ''Error checking maintenance windows''\<rparr>)
   \<and> (sch_dependsOn schedule = Some deps \<and> d \<in> set deps \<and> readSchedule env d = Inl e
        \<longrightarrow> \<not> checkDependencies env schedule)
   \<and> (c_type c = Some ''exitCode'' \<and> evaluateExitCode h c r = Inl e
        \<longrightarrow> evaluate h (Some c) r = JBool False)
   \<and> (c_type c = Some ''outputPattern'' \<and> evaluateOutputPattern h c r = Inl e
        \<longrightarrow> evaluate h (Some c) r = JBool False)
   \<and> (c_type c = Some ''threshold'' \<and> evaluateThreshold h c r = Inl e
        \<longrightarrow> evaluate h (Some c) r = JBool False)
   \<and> (c_type c = Some ''jsonPath'' \<and> evaluateJsonPath h c r = Inl e
        \<longrightarrow> evaluate h (Some c) r = JBool False)"
proof (intro conjI impI)
  show "checkConcurrencyLimits env schedule nodeId" if "readJobs env = Inl e"
    using that by (rule concurrency_fails_open)
  show "allowed (canJobRun env schedule t)" if "readWindows env = Inl e"
    using that by (rule canJobRun_store_fails_open)
  show "allowed (canJobRun env schedule t)"
    if "\<forall>p z. cronPrevious env p z (clock env) = Inl e"
    using that by (intro canJobRun_cron_fails_open [of env e]) simp
  show "canJobRun env schedule (Some u)
          = \<lparr>allowed = True, reason = ''Error checking maintenance windows''\<rparr>"
    if "sch_maintenanceWindowIds schedule = Some ids \<and> ids \<noteq> []
        \<and> windowsLoop env schedule u (getMaintenanceWindows env ids) = Inl e"
    using that by (simp add: canJobRun_throw_fails_open)
  show "\<not> checkDependencies env schedule"
    if "sch_dependsOn schedule = Some deps \<and> d \<in> set deps \<and> readSchedule env d = Inl e"
    using that dependencies_unverified [of schedule deps d env e] by blast
  show "evaluate h (Some c) r = JBool False"
    if "c_type c = Some ''exitCode'' \<and> evaluateExitCode h c r = Inl e"
    using that by (simp add: evaluate_exitCode caught_def)
  show "evaluate h (Some c) r = JBool False"
    if "c_type c = Some ''outputPattern'' \<and> evaluateOutputPattern h c r = Inl e"
    using that by (simp add: evaluate_outputPattern caught_def)
  show "evaluate h (Some c) r = JBool False"
    if "c_type c = Some ''threshold'' \<and> evaluateThreshold h c r = Inl e"
    using that by (simp add: evaluate_threshold caught_def)
  show "evaluate h (Some c) r = JBool False"
    if "c_type c = Some ''jsonPath'' \<and> evaluateJsonPath h c r = Inl e"
    using that by (simp add: evaluate_jsonPath caught_def)
qed

lemma malformed_window_throws:
  "windowsLoop (malformedWindowAt 9000000) (scheduleWith ''normal'') 9000000
     (getMaintenanceWindows (malformedWindowAt 9000000) [1])
   = Inl ''allowedPriorities.includes is not a function''"
  by (simp add: malformedWindowAt_def healthyAt_def getMaintenanceWindows_def nightlyWindow_def
        isInMaintenanceWindow_def nightlyCron_def strOr_def nightly_instants
        priorityAllowed_def scheduleWith_def)

text \<open>
  With the store unreachable the concurrency gate and the maintenance-window gate let
  the schedule run and the dependency gate holds it back; with the store at hand and
  the cron library throwing, or with a window whose list of allowed priorities is a
  number, the maintenance-window gate lets it run; an exit-code condition evaluated
  against the job result \<^verbatim>\<open>null\<close> is false.
\<close>

theorem C2_gates_on_error_witness:
  "checkConcurrencyLimits (brokenAt 0) (scheduleWith ''normal'') ''n1''
   \<and> allowed (canJobRun (brokenAt 0) (scheduleWith ''normal'') None)
   \<and> allowed (canJobRun (withoutCron 9000000) (scheduleWith ''normal'') (Some 9000000))
   \<and> canJobRun (malformedWindowAt 9000000) (scheduleWith ''normal'') (Some 9000000)
       = \<lparr>allowed = True, reason = ''Error checking maintenance windows''\<rparr>
   \<and> \<not> checkDependencies (brokenAt 0) (scheduleWith ''normal'')
   \<and> (\<forall>h. evaluate h (Some exitCondition) JNull = JBool False)"
proof (intro conjI allI)
  have j: "readJobs (brokenAt 0) = Inl ''connection lost''"
    and w: "readWindows (brokenAt 0) = Inl ''connection lost''"
    and s: "sch_dependsOn (scheduleWith ''normal'') = Some [6] \<and> 6 \<in> set [6::nat]
            \<and> readSchedule (brokenAt 0) 6 = Inl ''connection lost''"
    by (simp_all add: brokenAt_def scheduleWith_def)
  note gates = C2_gates_on_error [of "brokenAt 0" "''connection lost''" "scheduleWith ''normal''"
                 "''n1''" None _ _ "[6]" 6]
  from gates j show "checkConcurrencyLimits (brokenAt 0) (scheduleWith ''normal'') ''n1''"
    by blast
  from gates w show "allowed (canJobRun (brokenAt 0) (scheduleWith ''normal'') None)"
    by blast
  from gates s show "\<not> checkDependencies (brokenAt 0) (scheduleWith ''normal'')"
    by blast
  have c: "\<forall>p z. cronPrevious (withoutCron 9000000) p z (clock (withoutCron 9000000))
             = Inl ''cron.previous is not a function''"
    by (simp add: withoutCron_def)
  from C2_gates_on_error [of "withoutCron 9000000" "''cron.previous is not a function''"
         "scheduleWith ''normal''" _ "Some 9000000"] c
  show "allowed (canJobRun (withoutCron 9000000) (scheduleWith ''normal'') (Some 9000000))"
    by blast
  have m: "sch_maintenanceWindowIds (scheduleWith ''normal'') = Some [1] \<and> [1::nat] \<noteq> []
           \<and> windowsLoop (malformedWindowAt 9000000) (scheduleWith ''normal'') 9000000
                (getMaintenanceWindows (malformedWindowAt 9000000) [1])
              = Inl ''allowedPriorities.includes is not a function''"
    using malformed_window_throws by (simp add: scheduleWith_def)
  from C2_gates_on_error [of "malformedWindowAt 9000000"
         "''allowedPriorities.includes is not a function''" "scheduleWith ''normal''" _ _
         "[1]" 9000000] m
  show "canJobRun (malformedWindowAt 9000000) (scheduleWith ''normal'') (Some 9000000)
          = \<lparr>allowed = True, reason = ''Error checking maintenance windows''\<rparr>"
    by blast
next
  fix h
  have x: "c_type exitCondition = Some ''exitCode''
           \<and> evaluateExitCode h exitCondition JNull = Inl ''Cannot read properties of null''"
    by (simp add: exitCondition_def evaluateExitCode_def getProp_def)
  from C2_gates_on_error [where c = exitCondition and h = h and r = JNull
         and e = "''Cannot read properties of null''"] x
  show "evaluate h (Some exitCondition) JNull = JBool False" by blast
qed

text \<open>
  The dependency gate does not fail open. The schedule depends on schedule 6, the
  store throws on its lookup, and \<^verbatim>\<open>checkDependencies\<close> reports the dependencies as
  not met, so the schedule is held back.
\<close>

theorem C2_dependency_gate_counterexample:
  "sch_dependsOn (scheduleWith ''normal'') = Some [6]
   \<and> readSchedule (brokenAt 0) 6 = Inl ''connection lost''
   \<and> \<not> checkDependencies (brokenAt 0) (scheduleWith ''normal'')"
  by (simp add: checkDependencies_def brokenAt_def scheduleWith_def)

end
